theory Spec2Isabelle
  imports Main "HOL-Library.Word" "HOL-Library.Monad_Syntax" "HOL-Library.Signed_Division"
begin

section \<open>Common conventions\<close>

text \<open>
  The two programs verified here are \<^verbatim>\<open>CH-7/freivalds_technique.cpp\<close> and
  \<^verbatim>\<open>CH-7/perfect_bipartite.cpp\<close>.

  \<^item> A \<^verbatim>\<open>std::vector\<close> is a list. Reading \<^verbatim>\<open>v[i]\<close> with \<open>i\<close> beyond the size of
    the vector is undefined behaviour in C++; the model makes it the value \<open>None\<close>, and
    every function that reads a vector returns an \<open>option\<close>.
  \<^item> The C++ \<^verbatim>\<open>int\<close> of the Freivalds program is a 32-bit word; a signed overflow is
    modelled as the two's complement wrap-around the hardware performs.
  \<^item> The pseudo-random generator is local to each call and seeded from the clock. The
    model takes the sequence of values it delivers as a parameter \<open>gen\<close>: \<open>gen i\<close> is the
    value of the \<open>i\<close>-th call of \<^verbatim>\<open>distribution(generator)\<close>.
\<close>

definition rd :: "'a list \<Rightarrow> nat \<Rightarrow> 'a option" where
  "rd xs i = (if i < length xs then Some (xs ! i) else None)"

section \<open>Freivalds' technique (freivalds\_technique.cpp)\<close>

type_synonym int32 = "32 word"
type_synonym Matrix = "int32 list list"
type_synonym Vector = "int32 list"

text \<open>
  The inner loop of \<^verbatim>\<open>matrixVectorMultiply\<close>:
  \<^verbatim>\<open>for (int j = 0; j < n; ++j) result[i] += M[i][j] * r[j];\<close>
\<close>

function mvm_cols :: "Matrix \<Rightarrow> Vector \<Rightarrow> nat \<Rightarrow> nat \<Rightarrow> nat \<Rightarrow> Vector \<Rightarrow> Vector option" where
  "mvm_cols M r n i j result =
     (if j < n then
        do { m \<leftarrow> rd (M ! i) j;
             x \<leftarrow> rd r j;
             mvm_cols M r n i (Suc j) (result[i := result ! i + m * x]) }
      else Some result)"
  by pat_completeness auto
termination
  by (relation "measure (\<lambda>(M, r, n, i, j, result). n - j)") auto

declare mvm_cols.simps [simp del]

text \<open>The outer loop \<^verbatim>\<open>for (int i = 0; i < n; ++i)\<close>.\<close>

function mvm_rows :: "Matrix \<Rightarrow> Vector \<Rightarrow> nat \<Rightarrow> nat \<Rightarrow> Vector \<Rightarrow> Vector option" where
  "mvm_rows M r n i result =
     (if i < n then
        do { result' \<leftarrow> mvm_cols M r n i 0 result;
             mvm_rows M r n (Suc i) result' }
      else Some result)"
  by pat_completeness auto
termination
  by (relation "measure (\<lambda>(M, r, n, i, result). n - i)") auto

declare mvm_rows.simps [simp del]

definition matrixVectorMultiply :: "Matrix \<Rightarrow> Vector \<Rightarrow> Vector option" where
  "matrixVectorMultiply M r =
     (let n = length M in mvm_rows M r n 0 (replicate n 0))"

text \<open>
  The size test of \<^verbatim>\<open>freivaldsVerify\<close>. The C++ disjunction is evaluated left to right
  and stops at the first true disjunct, so \<^verbatim>\<open>A[0]\<close>, \<^verbatim>\<open>B[0]\<close> and \<^verbatim>\<open>C[0]\<close> are read only
  when the vector is not empty.
\<close>

definition invalid_dimensions :: "Matrix \<Rightarrow> Matrix \<Rightarrow> Matrix \<Rightarrow> bool" where
  "invalid_dimensions A B C =
     (let n = length A in
        n = 0 \<or> length (A ! 0) \<noteq> n \<or> length B \<noteq> n \<or> length (B ! 0) \<noteq> n
          \<or> length C \<noteq> n \<or> length (C ! 0) \<noteq> n)"

definition freivaldsVerify :: "Matrix \<Rightarrow> Matrix \<Rightarrow> Matrix \<Rightarrow> (nat \<Rightarrow> int32) \<Rightarrow> bool option" where
  "freivaldsVerify A B C gen =
     (let n = length A in
        if invalid_dimensions A B C then Some False
        else
          do { let r = map gen [0..<n];
               Br \<leftarrow> matrixVectorMultiply B r;
               A_Br \<leftarrow> matrixVectorMultiply A Br;
               Cr \<leftarrow> matrixVectorMultiply C r;
               Some (A_Br = Cr) })"

subsection \<open>Notions the statements use\<close>

text \<open>An \<open>n\<close> by \<open>n\<close> matrix: \<open>n\<close> rows of \<open>n\<close> entries each.\<close>

definition square :: "nat \<Rightarrow> 'a list list \<Rightarrow> bool" where
  "square n M = (length M = n \<and> list_all (\<lambda>row. length row = n) M)"

text \<open>
  \<open>C = A * B\<close> exactly, over the integers: every entry of \<open>C\<close>, read as a signed
  integer, is the integer sum of products.
\<close>

definition exact_product :: "nat \<Rightarrow> Matrix \<Rightarrow> Matrix \<Rightarrow> Matrix \<Rightarrow> bool" where
  "exact_product n A B C =
     list_all (\<lambda>i. list_all (\<lambda>j.
        sint (C ! i ! j) = (\<Sum>k \<leftarrow> [0..<n]. sint (A ! i ! k) * sint (B ! k ! j))) [0..<n]) [0..<n]"

text \<open>\<open>C = A * B\<close> in 32-bit arithmetic, that is modulo \<open>2 ^ 32\<close>.\<close>

definition wrapped_product :: "nat \<Rightarrow> Matrix \<Rightarrow> Matrix \<Rightarrow> Matrix \<Rightarrow> bool" where
  "wrapped_product n A B C =
     list_all (\<lambda>i. list_all (\<lambda>j.
        C ! i ! j = (\<Sum>k \<leftarrow> [0..<n]. A ! i ! k * B ! k ! j)) [0..<n]) [0..<n]"

text \<open>The vectors of \<open>{0,1}\<^sup>n\<close>.\<close>

definition bit_vectors :: "nat \<Rightarrow> Vector set" where
  "bit_vectors n = {r. set r \<subseteq> {0, 1} \<and> length r = n}"

text \<open>The product of a matrix with \<open>n\<close> rows and a vector, as a formula.\<close>

definition mv :: "Matrix \<Rightarrow> Vector \<Rightarrow> Vector" where
  "mv M r = map (\<lambda>row. \<Sum>c<length M. row ! c * r ! c) M"

text \<open>Flipping bit \<open>j\<close> of a vector of \<open>{0,1}\<^sup>n\<close>.\<close>

definition flip_at :: "nat \<Rightarrow> Vector \<Rightarrow> Vector" where
  "flip_at j r = r[j := 1 - r ! j]"

section \<open>Perfect matching in bipartite graphs (perfect\_bipartite.cpp)\<close>

text \<open>
  \<^verbatim>\<open>long long\<close> is modelled as \<open>int\<close> with the 64-bit two's complement wrap-around
  written out after every addition, subtraction and multiplication. The C++ operators
  \<^verbatim>\<open>%\<close> and \<^verbatim>\<open>/\<close> truncate towards zero: they are \<open>smod\<close> and \<open>sdiv\<close>.
\<close>

type_synonym ll = int
type_synonym MatrixLL = "ll list list"

definition p :: ll where
  "p = 1000000007"

definition wrap64 :: "int \<Rightarrow> ll" where
  "wrap64 x = (x + 2 ^ 63) mod 2 ^ 64 - 2 ^ 63"

definition ll_add :: "ll \<Rightarrow> ll \<Rightarrow> ll" where
  "ll_add a b = wrap64 (a + b)"

definition ll_sub :: "ll \<Rightarrow> ll \<Rightarrow> ll" where
  "ll_sub a b = wrap64 (a - b)"

definition ll_mul :: "ll \<Rightarrow> ll \<Rightarrow> ll" where
  "ll_mul a b = wrap64 (a * b)"

text \<open>The loop \<^verbatim>\<open>while (exp > 0)\<close> of \<^verbatim>\<open>power\<close>, on the variables \<open>res\<close>, \<open>base\<close>, \<open>exp\<close>.\<close>

function power_loop :: "ll \<Rightarrow> ll \<Rightarrow> ll \<Rightarrow> ll" where
  "power_loop res base exp =
     (if exp > 0 then
        power_loop (if exp smod 2 = 1 then ll_mul res base smod p else res)
          (ll_mul base base smod p) (exp sdiv 2)
      else res)"
  by pat_completeness auto
termination
  by (relation "measure (\<lambda>(res, base, exp). nat exp)")
     (auto simp: signed_divide_int_def sgn_if)

declare power_loop.simps [simp del]

text \<open>The function \<^verbatim>\<open>power\<close> of the source (the name \<open>power\<close> is taken in HOL).\<close>

definition power_p :: "ll \<Rightarrow> ll \<Rightarrow> ll" where
  "power_p base exp = power_loop 1 (base smod p) exp"

definition modInverse :: "ll \<Rightarrow> ll" where
  "modInverse n = power_p n (p - 2)"

text \<open>
  \<^verbatim>\<open>modularDeterminant\<close> works on its argument in place. The model passes the matrix
  \<open>A\<close>, the variable \<open>det\<close> and a trace along. The trace is not part of the program: it
  records, latest first, every call \<^verbatim>\<open>modInverse(a)\<close> as \<open>Inverse a\<close>, every assignment
  \<^verbatim>\<open>A[i][j] = v\<close> as \<open>Store i j v\<close> and every assignment \<^verbatim>\<open>det = v\<close> as \<open>Det v\<close>, so that
  statements about every step of a run can be made.
\<close>

datatype event = Inverse ll | Store nat nat ll | Det ll

definition rd2 :: "'a list list \<Rightarrow> nat \<Rightarrow> nat \<Rightarrow> 'a option" where
  "rd2 A i j = do { row \<leftarrow> rd A i; rd row j }"

definition wr2 :: "'a list list \<Rightarrow> nat \<Rightarrow> nat \<Rightarrow> 'a \<Rightarrow> 'a list list" where
  "wr2 A i j v = A[i := (A ! i)[j := v]]"

text \<open>\<^verbatim>\<open>while (pivot < n && A[pivot][k] == 0) pivot++;\<close>\<close>

function find_pivot :: "MatrixLL \<Rightarrow> nat \<Rightarrow> nat \<Rightarrow> nat \<Rightarrow> nat option" where
  "find_pivot A n k pivot =
     (if pivot < n then
        do { a \<leftarrow> rd2 A pivot k;
             if a = 0 then find_pivot A n k (Suc pivot) else Some pivot }
      else Some pivot)"
  by pat_completeness auto
termination
  by (relation "measure (\<lambda>(A, n, k, pivot). n - pivot)") auto

declare find_pivot.simps [simp del]

text \<open>
  \<^verbatim>\<open>for (int j = k; j < n; ++j) { ll term = (factor * A[k][j]) % p;
  A[i][j] = (A[i][j] - term + p) % p; }\<close>
\<close>

function elim_cols ::
  "nat \<Rightarrow> nat \<Rightarrow> nat \<Rightarrow> ll \<Rightarrow> nat \<Rightarrow> MatrixLL \<times> event list \<Rightarrow> (MatrixLL \<times> event list) option" where
  "elim_cols n k i factor j (A, tr) =
     (if j < n then
        do { akj \<leftarrow> rd2 A k j;
             aij \<leftarrow> rd2 A i j;
             let term = ll_mul factor akj smod p;
             let v = ll_add (ll_sub aij term) p smod p;
             elim_cols n k i factor (Suc j) (wr2 A i j v, Store i j v # tr) }
      else Some (A, tr))"
  by pat_completeness auto
termination
  by (relation "measure (\<lambda>(n, k, i, factor, j, s). n - j)") auto

declare elim_cols.simps [simp del]

text \<open>
  \<^verbatim>\<open>for (int i = k + 1; i < n; ++i) { ll factor = (A[i][k] * modInverse(A[k][k])) % p; ... }\<close>
\<close>

function elim_rows ::
  "nat \<Rightarrow> nat \<Rightarrow> nat \<Rightarrow> MatrixLL \<times> event list \<Rightarrow> (MatrixLL \<times> event list) option" where
  "elim_rows n k i (A, tr) =
     (if i < n then
        do { aik \<leftarrow> rd2 A i k;
             akk \<leftarrow> rd2 A k k;
             let factor = ll_mul aik (modInverse akk) smod p;
             s \<leftarrow> elim_cols n k i factor k (A, Inverse akk # tr);
             elim_rows n k (Suc i) s }
      else Some (A, tr))"
  by pat_completeness auto
termination
  by (relation "measure (\<lambda>(n, k, i, s). n - i)") auto

declare elim_rows.simps [simp del]

text \<open>\<^verbatim>\<open>for (int i = 0; i < n; ++i) det = (det * A[i][i]) % p;\<close>\<close>

function diag_loop :: "nat \<Rightarrow> nat \<Rightarrow> MatrixLL \<Rightarrow> ll \<times> event list \<Rightarrow> (ll \<times> event list) option" where
  "diag_loop n i A (det, tr) =
     (if i < n then
        do { aii \<leftarrow> rd2 A i i;
             let det' = ll_mul det aii smod p;
             diag_loop n (Suc i) A (det', Det det' # tr) }
      else Some (det, tr))"
  by pat_completeness auto
termination
  by (relation "measure (\<lambda>(n, i, A, s). n - i)") auto

declare diag_loop.simps [simp del]

text \<open>\<^verbatim>\<open>if (k != pivot) { std::swap(A[k], A[pivot]); det = (p - det) % p; }\<close>\<close>

definition swap_rows :: "nat \<Rightarrow> nat \<Rightarrow> MatrixLL \<times> ll \<times> event list \<Rightarrow> MatrixLL \<times> ll \<times> event list" where
  "swap_rows k pivot s =
     (case s of (A, det, tr) \<Rightarrow>
        if k \<noteq> pivot then
          (let det' = ll_sub p det smod p
           in (A[k := A ! pivot, pivot := A ! k], det', Det det' # tr))
        else (A, det, tr))"

text \<open>
  The loop \<^verbatim>\<open>for (int k = 0; k < n; ++k)\<close> with its early \<^verbatim>\<open>return 0\<close>, followed by the
  product of the diagonal and \<^verbatim>\<open>return (det + p) % p\<close>. The result is the returned value,
  the matrix as the call leaves it, and the trace.
\<close>

function elim_loop ::
  "nat \<Rightarrow> nat \<Rightarrow> MatrixLL \<times> ll \<times> event list \<Rightarrow> (ll \<times> MatrixLL \<times> event list) option" where
  "elim_loop n k (A, det, tr) =
     (if k < n then
        do { pivot \<leftarrow> find_pivot A n k k;
             if pivot = n then Some (0, A, tr)
             else
               (case swap_rows k pivot (A, det, tr) of (A1, det1, tr1) \<Rightarrow>
                  do { (A2, tr2) \<leftarrow> elim_rows n k (Suc k) (A1, tr1);
                       elim_loop n (Suc k) (A2, det1, tr2) }) }
      else
        do { (det', tr') \<leftarrow> diag_loop n 0 A (det, tr);
             Some (ll_add det' p smod p, A, tr') })"
  by pat_completeness auto
termination
  by (relation "measure (\<lambda>(n, k, s). n - k)") auto

declare elim_loop.simps [simp del]

definition modularDeterminant_run :: "MatrixLL \<Rightarrow> (ll \<times> MatrixLL \<times> event list) option" where
  "modularDeterminant_run A = elim_loop (length A) 0 (A, 1, [])"

definition modularDeterminant :: "MatrixLL \<Rightarrow> ll option" where
  "modularDeterminant A = map_option fst (modularDeterminant_run A)"

text \<open>
  \<^verbatim>\<open>hasPerfectMatching\<close> fills the matrix \<open>A'\<close> row by row; an entry of the graph equal to
  \<open>1\<close> takes the next value of the generator, \<open>used\<close> counts the values taken so far.
\<close>

function edmonds_cols ::
  "int32 list list \<Rightarrow> (nat \<Rightarrow> ll) \<Rightarrow> nat \<Rightarrow> nat \<Rightarrow> nat \<Rightarrow> MatrixLL \<times> nat \<Rightarrow> (MatrixLL \<times> nat) option" where
  "edmonds_cols graph gen n i j (A', used) =
     (if j < n then
        do { g \<leftarrow> rd2 graph i j;
             if g = 1 then edmonds_cols graph gen n i (Suc j) (wr2 A' i j (gen used), Suc used)
             else edmonds_cols graph gen n i (Suc j) (wr2 A' i j 0, used) }
      else Some (A', used))"
  by pat_completeness auto
termination
  by (relation "measure (\<lambda>(graph, gen, n, i, j, s). n - j)") auto

declare edmonds_cols.simps [simp del]

function edmonds_rows ::
  "int32 list list \<Rightarrow> (nat \<Rightarrow> ll) \<Rightarrow> nat \<Rightarrow> nat \<Rightarrow> MatrixLL \<times> nat \<Rightarrow> (MatrixLL \<times> nat) option" where
  "edmonds_rows graph gen n i s =
     (if i < n then
        do { s' \<leftarrow> edmonds_cols graph gen n i 0 s;
             edmonds_rows graph gen n (Suc i) s' }
      else Some s)"
  by pat_completeness auto
termination
  by (relation "measure (\<lambda>(graph, gen, n, i, s). n - i)") auto

declare edmonds_rows.simps [simp del]

definition hasPerfectMatching :: "int32 list list \<Rightarrow> (nat \<Rightarrow> ll) \<Rightarrow> bool option" where
  "hasPerfectMatching graph gen =
     (let n = length graph in
        if n = 0 then Some True
        else
          do { (A', used) \<leftarrow> edmonds_rows graph gen n 0 (replicate n (replicate n 0), 0);
               det \<leftarrow> modularDeterminant A';
               Some (det \<noteq> 0) })"

text \<open>
  The same function, returning besides the verdict the number of values it has taken from
  the generator and the list of the matrices on which it has called
  \<^verbatim>\<open>modularDeterminant\<close>. The two extra components are not part of the program: they
  record what a call does before it returns.
\<close>

definition hasPerfectMatching_run ::
  "int32 list list \<Rightarrow> (nat \<Rightarrow> ll) \<Rightarrow> (bool \<times> nat \<times> MatrixLL list) option" where
  "hasPerfectMatching_run graph gen =
     (let n = length graph in
        if n = 0 then Some (True, 0, [])
        else
          do { (A', used) \<leftarrow> edmonds_rows graph gen n 0 (replicate n (replicate n 0), 0);
               det \<leftarrow> modularDeterminant A';
               Some (det \<noteq> 0, used, [A']) })"

subsection \<open>Notions the statements use\<close>

text \<open>The elements of the field: the integers of \<open>[0, p - 1]\<close>.\<close>

definition in_field :: "ll \<Rightarrow> bool" where
  "in_field x = (0 \<le> x \<and> x < p)"

definition field_matrix :: "MatrixLL \<Rightarrow> bool" where
  "field_matrix A = list_all (list_all in_field) A"

text \<open>The value that an event of the trace passes or assigns is in the field.\<close>

fun event_in_field :: "event \<Rightarrow> bool" where
  "event_in_field (Inverse a) = in_field a"
| "event_in_field (Store i j v) = in_field v"
| "event_in_field (Det v) = in_field v"

text \<open>
  The row that the inner loop leaves in place of row \<open>ri\<close>: the columns from \<open>k\<close> on
  become \<open>ri - factor * rk\<close> modulo \<open>p\<close>.
\<close>

definition elim_row :: "nat \<Rightarrow> ll \<Rightarrow> ll list \<Rightarrow> ll list \<Rightarrow> ll list" where
  "elim_row k factor rk ri =
     map (\<lambda>c. if c < k then ri ! c else (ri ! c - factor * rk ! c) mod p) [0..<length ri]"

text \<open>
  The determinant of the \<open>n\<close> by \<open>n\<close> integer matrix with entries \<open>A i j\<close>, by Laplace
  expansion along the first column; \<open>minor i A\<close> is \<open>A\<close> without row \<open>i\<close> and column \<open>0\<close>.
\<close>

definition minor :: "nat \<Rightarrow> (nat \<Rightarrow> nat \<Rightarrow> int) \<Rightarrow> nat \<Rightarrow> nat \<Rightarrow> int" where
  "minor i A = (\<lambda>r c. A (if r < i then r else Suc r) (Suc c))"

primrec determinant :: "nat \<Rightarrow> (nat \<Rightarrow> nat \<Rightarrow> int) \<Rightarrow> int" where
  "determinant 0 A = 1"
| "determinant (Suc n) A = (\<Sum>i\<le>n. (- 1) ^ i * A i 0 * determinant n (minor i A))"

text \<open>The determinant of a matrix given as a list of rows.\<close>

definition det_of :: "MatrixLL \<Rightarrow> int" where
  "det_of A = determinant (length A) (\<lambda>i j. A ! i ! j)"

text \<open>
  The factor of row \<open>r\<close> for the pivot \<open>A[k][k]\<close>, and the matrix that the loop over the
  rows below \<open>k\<close> leaves.
\<close>

definition elim_factor :: "MatrixLL \<Rightarrow> nat \<Rightarrow> nat \<Rightarrow> ll" where
  "elim_factor A k r = (A ! r ! k * modInverse (A ! k ! k)) mod p"

definition elim_from :: "nat \<Rightarrow> nat \<Rightarrow> MatrixLL \<Rightarrow> MatrixLL" where
  "elim_from k i A =
     map (\<lambda>r. if r < i then A ! r else elim_row k (elim_factor A k r) (A ! k) (A ! r))
       [0..<length A]"

text \<open>A list with the entries at \<open>k\<close> and \<open>pv\<close> exchanged, as \<^verbatim>\<open>std::swap\<close> leaves it.\<close>

definition swapped :: "nat \<Rightarrow> nat \<Rightarrow> 'a list \<Rightarrow> 'a list" where
  "swapped k pv A = A[k := A ! pv, pv := A ! k]"

text \<open>
  The first \<open>k\<close> columns of the \<open>n\<close> by \<open>n\<close> matrix \<open>A\<close> are zero below the diagonal: the
  state of the matrix when the loop of \<^verbatim>\<open>modularDeterminant\<close> reaches column \<open>k\<close>.
\<close>

definition echelon :: "nat \<Rightarrow> nat \<Rightarrow> (nat \<Rightarrow> nat \<Rightarrow> int) \<Rightarrow> bool" where
  "echelon k n A = (\<forall>i<n. \<forall>j<k. j < i \<longrightarrow> A i j = 0)"

text \<open>
  A perfect matching of the bipartite graph with adjacency matrix \<open>graph\<close>: a bijection \<open>f\<close>
  from the left vertices \<open>0, \<dots>, n - 1\<close> to the right vertices such that every left vertex
  \<open>i\<close> has an edge to \<open>f i\<close>. As in the program, an edge is an entry equal to \<open>1\<close>.
\<close>

definition has_perfect_matching :: "int32 list list \<Rightarrow> bool" where
  "has_perfect_matching graph =
     (\<exists>f. bij_betw f {..<length graph} {..<length graph}
        \<and> (\<forall>i<length graph. graph ! i ! f i = 1))"

text \<open>Prime numbers, for the modulus \<open>p\<close> and Fermat's little theorem.\<close>

definition is_prime :: "nat \<Rightarrow> bool" where
  "is_prime q = (1 < q \<and> (\<forall>d. d dvd q \<longrightarrow> d = 1 \<or> d = q))"

text \<open>
  Two functions that are evaluated to certify that \<open>p\<close> is prime: \<open>mpow m b e\<close> is
  \<open>b ^ e mod m\<close> by repeated squaring, and \<open>nodiv n lo hi\<close> holds when no number from
  \<open>lo\<close> to \<open>hi\<close> divides \<open>n\<close>.
\<close>

function mpow :: "int \<Rightarrow> int \<Rightarrow> int \<Rightarrow> int" where
  "mpow m b e =
     (if e \<le> 0 then 1 mod m
      else if e mod 2 = 0 then mpow m ((b * b) mod m) (e div 2)
      else (b * mpow m ((b * b) mod m) (e div 2)) mod m)"
  by pat_completeness auto
termination
  by (relation "measure (\<lambda>(m, b, e). nat e)") auto

declare mpow.simps [simp del]

function nodiv :: "int \<Rightarrow> int \<Rightarrow> int \<Rightarrow> bool" where
  "nodiv n lo hi = (if hi < lo then True else n mod lo \<noteq> 0 \<and> nodiv n (lo + 1) hi)"
  by pat_completeness auto
termination
  by (relation "measure (\<lambda>(n, lo, hi). nat (1 + hi - lo))") auto

declare nodiv.simps [simp del]

text \<open>
  What holds of the matrix \<open>A'\<close> while \<^verbatim>\<open>hasPerfectMatching\<close> fills it: it is \<open>n\<close> by \<open>n\<close>,
  its entries are in the field, and a nonzero entry sits on an edge of the graph.
\<close>

definition edmonds_inv :: "nat \<Rightarrow> int32 list list \<Rightarrow> MatrixLL \<Rightarrow> bool" where
  "edmonds_inv n graph A' =
     (square n A' \<and> field_matrix A' \<and> (\<forall>i<n. \<forall>j<n. A' ! i ! j \<noteq> 0 \<longrightarrow> graph ! i ! j = 1))"

section \<open>Freivalds' technique: the loops\<close>

lemma mvm_cols_Some:
  "j \<le> n \<Longrightarrow> n \<le> length (M ! i) \<Longrightarrow> n \<le> length r \<Longrightarrow> i < length result \<Longrightarrow>
   mvm_cols M r n i j result = Some (result[i := result ! i + (\<Sum>c = j..<n. M ! i ! c * r ! c)])"
proof (induction M r n i j result rule: mvm_cols.induct)
  case (1 M r n i j result)
  show ?case
  proof (cases "j < n")
    case True
    let ?res = "result[i := result ! i + M ! i ! j * r ! j]"
    have "mvm_cols M r n i j result = mvm_cols M r n i (Suc j) ?res"
      using True 1(3,4) by (subst mvm_cols.simps) (simp add: rd_def)
    also have "\<dots> = Some (?res[i := ?res ! i + (\<Sum>c = Suc j..<n. M ! i ! c * r ! c)])"
      using True 1 by (intro "1.IH") (auto simp: rd_def)
    also have "?res[i := ?res ! i + (\<Sum>c = Suc j..<n. M ! i ! c * r ! c)]
        = result[i := result ! i + (\<Sum>c = j..<n. M ! i ! c * r ! c)]"
      using True 1(5) by (simp add: sum.atLeast_Suc_lessThan add.assoc)
    finally show ?thesis .
  next
    case False
    with 1(2) have "j = n" by simp
    then show ?thesis by (subst mvm_cols.simps) simp
  qed
qed

lemma mvm_cols_None:
  "j \<le> length (M ! i) \<Longrightarrow> length (M ! i) < n \<Longrightarrow> n \<le> length r \<Longrightarrow>
   mvm_cols M r n i j result = None"
proof (induction M r n i j result rule: mvm_cols.induct)
  case (1 M r n i j result)
  show ?case
  proof (cases "j < length (M ! i)")
    case True
    then have "mvm_cols M r n i j result
        = mvm_cols M r n i (Suc j) (result[i := result ! i + M ! i ! j * r ! j])"
      using 1(3,4) by (subst mvm_cols.simps) (simp add: rd_def)
    also have "\<dots> = None"
      using True 1 by (intro "1.IH") (auto simp: rd_def)
    finally show ?thesis .
  next
    case False
    then show ?thesis using 1(2,3) by (subst mvm_cols.simps) (simp add: rd_def)
  qed
qed

lemma mvm_rows_Some:
  "i \<le> n \<Longrightarrow> length result = n \<Longrightarrow> n \<le> length r \<Longrightarrow>
   (\<forall>i'. i \<le> i' \<and> i' < n \<longrightarrow> n \<le> length (M ! i')) \<Longrightarrow>
   mvm_rows M r n i result
     = Some (map (\<lambda>i'. if i' < i then result ! i' else result ! i' + (\<Sum>c<n. M ! i' ! c * r ! c)) [0..<n])"
proof (induction M r n i result rule: mvm_rows.induct)
  case (1 M r n i result)
  show ?case
  proof (cases "i < n")
    case True
    let ?res = "result[i := result ! i + (\<Sum>c = 0..<n. M ! i ! c * r ! c)]"
    have c: "mvm_cols M r n i 0 result = Some ?res"
      using True 1(3,4,5) by (intro mvm_cols_Some) auto
    have "mvm_rows M r n i result = mvm_rows M r n (Suc i) ?res"
      using True c by (subst mvm_rows.simps) simp
    also have "\<dots> = Some (map (\<lambda>i'. if i' < Suc i then ?res ! i'
          else ?res ! i' + (\<Sum>c<n. M ! i' ! c * r ! c)) [0..<n])"
      using True c 1(3,4,5) by (intro "1.IH") auto
    also have "map (\<lambda>i'. if i' < Suc i then ?res ! i'
          else ?res ! i' + (\<Sum>c<n. M ! i' ! c * r ! c)) [0..<n]
       = map (\<lambda>i'. if i' < i then result ! i'
          else result ! i' + (\<Sum>c<n. M ! i' ! c * r ! c)) [0..<n]"
      using True 1(3) by (auto simp: nth_list_update lessThan_atLeast0 less_Suc_eq)
    finally show ?thesis .
  next
    case False
    with 1(2) have "i = n" by simp
    then show ?thesis using 1(3)
      by (subst mvm_rows.simps) (auto intro: nth_equalityI)
  qed
qed

lemma mvm_rows_None:
  "length result = n \<Longrightarrow> n \<le> length r \<Longrightarrow>
   (\<exists>i'. i \<le> i' \<and> i' < n \<and> length (M ! i') < n) \<Longrightarrow>
   mvm_rows M r n i result = None"
proof (induction M r n i result rule: mvm_rows.induct)
  case (1 M r n i result)
  from 1(4) have lt: "i < n" by auto
  show ?case
  proof (cases "length (M ! i) < n")
    case True
    then have "mvm_cols M r n i 0 result = None"
      using 1(3) by (intro mvm_cols_None) auto
    then show ?thesis using lt by (subst mvm_rows.simps) simp
  next
    case False
    let ?res = "result[i := result ! i + (\<Sum>c = 0..<n. M ! i ! c * r ! c)]"
    have c: "mvm_cols M r n i 0 result = Some ?res"
      using False lt 1(2,3) by (intro mvm_cols_Some) auto
    from False 1(4) have ex: "\<exists>i'. Suc i \<le> i' \<and> i' < n \<and> length (M ! i') < n"
      by (metis Suc_leI le_neq_implies_less)
    have "mvm_rows M r n i result = mvm_rows M r n (Suc i) ?res"
      using lt c by (subst mvm_rows.simps) simp
    also have "\<dots> = None"
      using lt c 1(2,3) ex by (intro "1.IH") auto
    finally show ?thesis .
  qed
qed

lemma matrixVectorMultiply_Some:
  assumes "length M \<le> length r" "list_all (\<lambda>row. length M \<le> length row) M"
  shows "matrixVectorMultiply M r = Some (mv M r)"
proof -
  let ?n = "length M"
  have rows: "\<forall>i'. 0 \<le> i' \<and> i' < ?n \<longrightarrow> ?n \<le> length (M ! i')"
    using assms(2) by (simp add: list_all_length)
  have "mvm_rows M r ?n 0 (replicate ?n 0)
      = Some (map (\<lambda>i'. if i' < 0 then replicate ?n 0 ! i'
           else replicate ?n 0 ! i' + (\<Sum>c<?n. M ! i' ! c * r ! c)) [0..<?n])"
    using assms(1) rows by (intro mvm_rows_Some) auto
  also have "map (\<lambda>i'. if i' < 0 then replicate ?n 0 ! i'
           else replicate ?n 0 ! i' + (\<Sum>c<?n. M ! i' ! c * r ! c)) [0..<?n] = mv M r"
    by (auto simp: mv_def intro!: nth_equalityI)
  finally show ?thesis by (simp add: matrixVectorMultiply_def)
qed

lemma matrixVectorMultiply_None:
  assumes "length M \<le> length r" "\<not> list_all (\<lambda>row. length M \<le> length row) M"
  shows "matrixVectorMultiply M r = None"
proof -
  from assms(2) obtain i' where "i' < length M" "length (M ! i') < length M"
    by (auto simp: list_all_length)
  then have "mvm_rows M r (length M) 0 (replicate (length M) 0) = None"
    using assms(1) by (intro mvm_rows_None) auto
  then show ?thesis by (simp add: matrixVectorMultiply_def)
qed

lemma length_mv [simp]: "length (mv M r) = length M"
  by (simp add: mv_def)

lemma freivaldsVerify_rows:
  assumes "\<not> invalid_dimensions A B C"
    and "list_all (\<lambda>row. length A \<le> length row) A"
    and "list_all (\<lambda>row. length A \<le> length row) B"
    and "list_all (\<lambda>row. length A \<le> length row) C"
  shows "freivaldsVerify A B C gen
      = Some (mv A (mv B (map gen [0..<length A])) = mv C (map gen [0..<length A]))"
proof -
  from assms(1) have len: "length B = length A" "length C = length A"
    by (auto simp: invalid_dimensions_def Let_def)
  let ?r = "map gen [0..<length A]"
  have 1: "matrixVectorMultiply B ?r = Some (mv B ?r)"
    using assms(3) len by (intro matrixVectorMultiply_Some) auto
  have 2: "matrixVectorMultiply A (mv B ?r) = Some (mv A (mv B ?r))"
    using assms(2) len by (intro matrixVectorMultiply_Some) auto
  have 3: "matrixVectorMultiply C ?r = Some (mv C ?r)"
    using assms(4) len by (intro matrixVectorMultiply_Some) auto
  show ?thesis
    using assms(1) 1 2 3 by (simp add: freivaldsVerify_def Let_def)
qed

lemma freivaldsVerify_short_row:
  assumes "\<not> invalid_dimensions A B C"
    and "\<not> (list_all (\<lambda>row. length A \<le> length row) A
           \<and> list_all (\<lambda>row. length A \<le> length row) B
           \<and> list_all (\<lambda>row. length A \<le> length row) C)"
  shows "freivaldsVerify A B C gen = None"
proof -
  from assms(1) have len: "length B = length A" "length C = length A"
    by (auto simp: invalid_dimensions_def Let_def)
  let ?r = "map gen [0..<length A]"
  show ?thesis
  proof (cases "list_all (\<lambda>row. length A \<le> length row) B")
    case False
    then have "matrixVectorMultiply B ?r = None"
      using len by (intro matrixVectorMultiply_None) auto
    then show ?thesis using assms(1) by (simp add: freivaldsVerify_def Let_def)
  next
    case B: True
    then have 1: "matrixVectorMultiply B ?r = Some (mv B ?r)"
      using len by (intro matrixVectorMultiply_Some) auto
    show ?thesis
    proof (cases "list_all (\<lambda>row. length A \<le> length row) A")
      case False
      then have "matrixVectorMultiply A (mv B ?r) = None"
        using len by (intro matrixVectorMultiply_None) auto
      then show ?thesis using assms(1) 1 by (simp add: freivaldsVerify_def Let_def)
    next
      case True
      then have 2: "matrixVectorMultiply A (mv B ?r) = Some (mv A (mv B ?r))"
        using len by (intro matrixVectorMultiply_Some) auto
      from True B assms(2) have "\<not> list_all (\<lambda>row. length A \<le> length row) C"
        by simp
      then have "matrixVectorMultiply C ?r = None"
        using len by (intro matrixVectorMultiply_None) auto
      then show ?thesis using assms(1) 1 2 by (simp add: freivaldsVerify_def Let_def)
    qed
  qed
qed

lemma square_valid:
  "1 \<le> n \<Longrightarrow> square n A \<Longrightarrow> square n B \<Longrightarrow> square n C \<Longrightarrow> \<not> invalid_dimensions A B C"
  by (auto simp: square_def invalid_dimensions_def Let_def list_all_length)

lemma square_rows: "square n M \<Longrightarrow> list_all (\<lambda>row. n \<le> length row) M"
  by (auto simp: square_def list_all_length)

lemma freivaldsVerify_square:
  assumes "1 \<le> n" "square n A" "square n B" "square n C"
  shows "freivaldsVerify A B C gen = Some (mv A (mv B (map gen [0..<n])) = mv C (map gen [0..<n]))"
proof -
  have n: "length A = n" using assms(2) by (simp add: square_def)
  show ?thesis
    using freivaldsVerify_rows [OF square_valid [OF assms], of gen]
      square_rows [OF assms(2)] square_rows [OF assms(3)] square_rows [OF assms(4)]
    by (simp add: n)
qed

lemma sum_list_upt: "(\<Sum>k\<leftarrow>[0..<n]. f k) = (\<Sum>k<n. f k)"
  by (simp add: interv_sum_list_conv_sum_set_nat lessThan_atLeast0)

lemma exact_imp_wrapped:
  assumes "exact_product n A B C" shows "wrapped_product n A B C"
proof -
  have "C ! i ! j = (\<Sum>k<n. A ! i ! k * B ! k ! j)" if "i < n" "j < n" for i j
  proof -
    from assms that have "sint (C ! i ! j) = (\<Sum>k<n. sint (A ! i ! k) * sint (B ! k ! j))"
      by (simp add: exact_product_def list_all_iff sum_list_upt)
    then have "word_of_int (sint (C ! i ! j))
        = (word_of_int (\<Sum>k<n. sint (A ! i ! k) * sint (B ! k ! j)) :: int32)"
      by simp
    then show ?thesis by (simp add: of_int_sum)
  qed
  then show ?thesis
    by (simp add: wrapped_product_def list_all_iff sum_list_upt)
qed

lemma mv_nth:
  "i < length M \<Longrightarrow> mv M r ! i = (\<Sum>c<length M. M ! i ! c * r ! c)"
  by (simp add: mv_def)

lemma mv_assoc:
  assumes "square n A" "square n B" "square n C" "wrapped_product n A B C"
  shows "mv A (mv B r) = mv C r"
proof (rule nth_equalityI)
  from assms have len: "length A = n" "length B = n" "length C = n"
    by (simp_all add: square_def)
  show "length (mv A (mv B r)) = length (mv C r)" by (simp add: len)
  fix i assume "i < length (mv A (mv B r))"
  then have i: "i < n" by (simp add: len)
  have C: "C ! i ! c = (\<Sum>k<n. A ! i ! k * B ! k ! c)" if "c < n" for c
    using assms(4) i that by (simp add: wrapped_product_def list_all_iff sum_list_upt)
  have "mv A (mv B r) ! i = (\<Sum>k<n. A ! i ! k * (\<Sum>c<n. B ! k ! c * r ! c))"
    using i by (simp add: mv_nth len)
  also have "\<dots> = (\<Sum>k<n. \<Sum>c<n. A ! i ! k * B ! k ! c * r ! c)"
    by (simp add: sum_distrib_left mult.assoc)
  also have "\<dots> = (\<Sum>c<n. \<Sum>k<n. A ! i ! k * B ! k ! c * r ! c)"
    by (rule sum.swap)
  also have "\<dots> = (\<Sum>c<n. C ! i ! c * r ! c)"
    by (simp add: C sum_distrib_right)
  also have "\<dots> = mv C r ! i"
    using i by (simp add: mv_nth len)
  finally show "mv A (mv B r) ! i = mv C r ! i" .
qed

section \<open>Freivalds' technique: the claims\<close>

text \<open>
  Claim C1. For every \<open>n \<ge> 1\<close> and all \<open>n\<close> by \<open>n\<close> matrices \<open>A\<close>, \<open>B\<close>, \<open>C\<close> with
  \<open>C = A * B\<close> exactly over the integers, \<^verbatim>\<open>freivaldsVerify\<close> returns true whatever the
  generator delivers: there is no false negative.
\<close>

theorem freivaldsVerify_no_false_negative:
  assumes "1 \<le> n" "square n A" "square n B" "square n C" "exact_product n A B C"
  shows "freivaldsVerify A B C gen = Some True"
  using freivaldsVerify_square [OF assms(1-4)] mv_assoc [OF assms(2-4) exact_imp_wrapped [OF assms(5)]]
  by simp

theorem freivaldsVerify_no_false_negative_witness:
  "freivaldsVerify [[1, 2, 3], [4, 5, 6], [7, 8, 9]] [[9, 8, 7], [6, 5, 4], [3, 2, 1]]
     [[30, 24, 18], [84, 69, 54], [138, 114, 90]] ((!) [1, 0, 1]) = Some True"
proof -
  have "exact_product 3 [[1, 2, 3], [4, 5, 6], [7, 8, 9]] [[9, 8, 7], [6, 5, 4], [3, 2, 1]]
     [[30, 24, 18], [84, 69, 54], [138, 114, 90]]"
    by code_simp
  then show ?thesis
    by (intro freivaldsVerify_no_false_negative [of 3]) (simp_all add: square_def)
qed

lemma flip_at_bit: "r \<in> bit_vectors n \<Longrightarrow> flip_at j r \<in> bit_vectors n"
proof -
  assume r: "r \<in> bit_vectors n"
  show ?thesis
  proof (cases "j < length r")
    case True
    then have "r ! j \<in> set r" by (rule nth_mem)
    moreover from r have "set r \<subseteq> {0, 1}" by (simp add: bit_vectors_def)
    ultimately have "r ! j \<in> {0, 1}" by (rule subsetD [rotated])
    then have "1 - r ! j \<in> {0, 1}" by auto
    with r show ?thesis
      unfolding flip_at_def bit_vectors_def
      using set_update_subset_insert [of r j "1 - r ! j"] by auto
  next
    case False
    with r show ?thesis by (simp add: flip_at_def list_update_beyond not_less)
  qed
qed

lemma flip_at_inj: "inj_on (flip_at j) (bit_vectors n)"
proof (rule inj_on_inverseI)
  fix r :: Vector assume "r \<in> bit_vectors n"
  show "flip_at j (flip_at j r) = r"
    by (cases "j < length r") (simp_all add: flip_at_def list_update_beyond not_less)
qed

lemma row_sum_update:
  fixes d :: "nat \<Rightarrow> int32"
  assumes "j < n" "length r = n"
  shows "(\<Sum>c<n. d c * r[j := v] ! c) = (\<Sum>c<n. d c * r ! c) + d j * (v - r ! j)"
proof -
  have fin: "finite {..<n}" and mem: "j \<in> {..<n}" using assms by auto
  have "(\<Sum>c<n. d c * r[j := v] ! c)
      = d j * r[j := v] ! j + (\<Sum>c\<in>{..<n} - {j}. d c * r[j := v] ! c)"
    by (rule sum.remove [OF fin mem])
  also have "(\<Sum>c\<in>{..<n} - {j}. d c * r[j := v] ! c) = (\<Sum>c\<in>{..<n} - {j}. d c * r ! c)"
    by (rule sum.cong) auto
  also have "d j * r[j := v] ! j = d j * r ! j + d j * (v - r ! j)"
    using assms by (simp add: algebra_simps)
  finally have "(\<Sum>c<n. d c * r[j := v] ! c)
      = (d j * r ! j + (\<Sum>c\<in>{..<n} - {j}. d c * r ! c)) + d j * (v - r ! j)"
    by (simp add: algebra_simps)
  also have "d j * r ! j + (\<Sum>c\<in>{..<n} - {j}. d c * r ! c) = (\<Sum>c<n. d c * r ! c)"
    by (rule sum.remove [OF fin mem, symmetric])
  finally show ?thesis .
qed

lemma card_bit_vectors: "card (bit_vectors n) = 2 ^ n"
proof -
  have "card {xs. set xs \<subseteq> {0, 1 :: int32} \<and> length xs = n} = card {0, 1 :: int32} ^ n"
    by (rule card_lists_length_eq) simp
  then show ?thesis by (simp add: bit_vectors_def numeral_2_eq_2)
qed

lemma finite_bit_vectors: "finite (bit_vectors n)"
  unfolding bit_vectors_def by (rule finite_lists_length_eq) simp

lemma mv_product_nth:
  assumes "square n A" "square n B" "i < n"
  shows "mv A (mv B r) ! i = (\<Sum>c<n. (\<Sum>k<n. A ! i ! k * B ! k ! c) * r ! c)"
proof -
  from assms have len: "length A = n" "length B = n" by (simp_all add: square_def)
  have "mv A (mv B r) ! i = (\<Sum>k<n. A ! i ! k * (\<Sum>c<n. B ! k ! c * r ! c))"
    using assms(3) by (simp add: mv_nth len)
  also have "\<dots> = (\<Sum>k<n. \<Sum>c<n. A ! i ! k * B ! k ! c * r ! c)"
    by (simp add: sum_distrib_left mult.assoc)
  also have "\<dots> = (\<Sum>c<n. \<Sum>k<n. A ! i ! k * B ! k ! c * r ! c)"
    by (rule sum.swap)
  finally show ?thesis by (simp add: sum_distrib_right)
qed

lemma flip_changes_verdict:
  assumes sq: "square n A" "square n B" "square n C"
    and i: "i < n" and j: "j < n"
    and ne: "C ! i ! j \<noteq> (\<Sum>k<n. A ! i ! k * B ! k ! j)"
    and r: "r \<in> bit_vectors n"
    and eq: "mv A (mv B r) = mv C r"
  shows "mv A (mv B (flip_at j r)) \<noteq> mv C (flip_at j r)"
proof
  let ?d = "\<lambda>c. (\<Sum>k<n. A ! i ! k * B ! k ! c) - C ! i ! c"
  let ?r' = "flip_at j r"
  from sq have len: "length C = n" by (simp add: square_def)
  from r have lr: "length r = n" by (simp add: bit_vectors_def)
  from j lr have "r ! j \<in> set r" by simp
  moreover from r have "set r \<subseteq> {0, 1}" by (simp add: bit_vectors_def)
  ultimately have "r ! j \<in> {0, 1}" by (rule subsetD [rotated])
  then have rj: "r ! j = 0 \<or> r ! j = 1" by simp
  have diff: "(\<Sum>c<n. ?d c * s ! c) = mv A (mv B s) ! i - mv C s ! i" for s
    using i by (simp add: mv_product_nth [OF sq(1,2)] mv_nth len left_diff_distrib sum_subtractf)
  assume "mv A (mv B ?r') = mv C ?r'"
  then have "(\<Sum>c<n. ?d c * ?r' ! c) = 0" by (simp add: diff)
  moreover have "(\<Sum>c<n. ?d c * r ! c) = 0" using eq by (simp add: diff)
  moreover have "(\<Sum>c<n. ?d c * ?r' ! c) = (\<Sum>c<n. ?d c * r ! c) + ?d j * ((1 - r ! j) - r ! j)"
    unfolding flip_at_def by (rule row_sum_update [OF j lr])
  ultimately have "?d j * ((1 - r ! j) - r ! j) = 0" by simp
  with rj have "?d j = 0" by auto
  with ne show False by simp
qed

text \<open>
  The counting argument of Freivalds' bound, in the arithmetic of the program: when
  \<open>A * B\<close> and \<open>C\<close> differ modulo \<open>2 ^ 32\<close>, flipping one bit of \<open>r\<close> pairs every accepted
  vector with a rejected one, so at most half of \<open>{0,1}\<^sup>n\<close> is accepted.
\<close>

lemma freivaldsVerify_false_positive_bound:
  assumes "1 \<le> n" "square n A" "square n B" "square n C" "\<not> wrapped_product n A B C"
  shows "card {r \<in> bit_vectors n. freivaldsVerify A B C ((!) r) = Some True} \<le> 2 ^ (n - 1)"
proof -
  let ?S = "{r \<in> bit_vectors n. freivaldsVerify A B C ((!) r) = Some True}"
  from assms(5) obtain i j where i: "i < n" and j: "j < n"
    and ne: "C ! i ! j \<noteq> (\<Sum>k<n. A ! i ! k * B ! k ! j)"
    by (auto simp: wrapped_product_def list_all_iff sum_list_upt)
  have verdict: "freivaldsVerify A B C ((!) r) = Some (mv A (mv B r) = mv C r)"
    if "r \<in> bit_vectors n" for r
  proof -
    from that have "map ((!) r) [0..<n] = r" by (auto simp: bit_vectors_def map_nth)
    with freivaldsVerify_square [OF assms(1-4), of "(!) r"] show ?thesis by simp
  qed
  have S: "?S = {r \<in> bit_vectors n. mv A (mv B r) = mv C r}"
    by (auto simp: verdict)
  have sub: "?S \<subseteq> bit_vectors n" by auto
  have fin: "finite ?S" by (rule finite_subset [OF sub finite_bit_vectors])
  have disj: "?S \<inter> flip_at j ` ?S = {}"
    unfolding S using flip_changes_verdict [OF assms(2-4) i j ne] by auto
  have img: "flip_at j ` ?S \<subseteq> bit_vectors n"
    using flip_at_bit by auto
  have "card (?S \<union> flip_at j ` ?S) \<le> card (bit_vectors n)"
    by (rule card_mono [OF finite_bit_vectors]) (use sub img in blast)
  moreover have "card (?S \<union> flip_at j ` ?S) = card ?S + card (flip_at j ` ?S)"
    by (rule card_Un_disjoint [OF fin _ disj]) (simp add: fin)
  moreover have "card (flip_at j ` ?S) = card ?S"
    by (rule card_image [OF inj_on_subset [OF flip_at_inj sub]])
  ultimately have "2 * card ?S \<le> 2 ^ n" by (simp add: card_bit_vectors)
  moreover from assms(1) have "(2::nat) ^ n = 2 * 2 ^ (n - 1)"
    by (cases n) simp_all
  ultimately show ?thesis by simp
qed

lemma freivaldsVerify_false_positive_bound_instance:
  "card {r \<in> bit_vectors 3. freivaldsVerify [[1, 2, 3], [4, 5, 6], [7, 8, 9]]
      [[9, 8, 7], [6, 5, 4], [3, 2, 1]] [[30, 24, 18], [84, 69, 54], [138, 114, 91]] ((!) r) = Some True}
   \<le> 2 ^ (3 - 1)"
proof -
  have "\<not> wrapped_product 3 [[1, 2, 3], [4, 5, 6], [7, 8, 9]] [[9, 8, 7], [6, 5, 4], [3, 2, 1]]
     [[30, 24, 18], [84, 69, 54], [138, 114, 91]]"
    by code_simp
  then show ?thesis
    by (intro freivaldsVerify_false_positive_bound) (simp_all add: square_def)
qed

text \<open>
  Where no entry of the exact product \<open>A * B\<close> leaves the range of \<^verbatim>\<open>int\<close>, a difference
  over the integers is a difference modulo \<open>2 ^ 32\<close>, and the bound holds as claimed.
\<close>

lemma exact_in_range_not_wrapped:
  assumes ne: "\<not> exact_product n A B C"
    and range: "\<forall>i<n. \<forall>j<n. - (2 ^ 31) \<le> (\<Sum>k<n. sint (A ! i ! k) * sint (B ! k ! j))
        \<and> (\<Sum>k<n. sint (A ! i ! k) * sint (B ! k ! j)) < 2 ^ 31"
  shows "\<not> wrapped_product n A B C"
proof
  assume w: "wrapped_product n A B C"
  have "sint (C ! i ! j) = (\<Sum>k<n. sint (A ! i ! k) * sint (B ! k ! j))" if "i < n" "j < n" for i j
  proof -
    let ?S = "\<Sum>k<n. sint (A ! i ! k) * sint (B ! k ! j)"
    from w that have "C ! i ! j = (\<Sum>k<n. A ! i ! k * B ! k ! j)"
      by (simp add: wrapped_product_def list_all_iff sum_list_upt)
    also have "\<dots> = word_of_int ?S" by (simp add: of_int_sum)
    finally have "sint (C ! i ! j) = sint (word_of_int ?S :: int32)" by simp
    also have "\<dots> = signed_take_bit (LENGTH(32) - 1) ?S" by (rule sint_sbintrunc')
    also have "\<dots> = ?S"
    proof (rule signed_take_bit_int_eq_self)
      from range that have r: "- (2 ^ 31) \<le> ?S" "?S < 2 ^ 31" by simp_all
      from r(1) show "- (2 ^ (LENGTH(32) - 1)) \<le> ?S" by simp
      from r(2) show "?S < 2 ^ (LENGTH(32) - 1)" by simp
    qed
    finally show ?thesis .
  qed
  then have "exact_product n A B C"
    by (simp add: exact_product_def list_all_iff sum_list_upt)
  with ne show False by simp
qed

lemma freivaldsVerify_false_positive_bound_exact:
  assumes "1 \<le> n" "square n A" "square n B" "square n C" "\<not> exact_product n A B C"
    and "\<forall>i<n. \<forall>j<n. - (2 ^ 31) \<le> (\<Sum>k<n. sint (A ! i ! k) * sint (B ! k ! j))
        \<and> (\<Sum>k<n. sint (A ! i ! k) * sint (B ! k ! j)) < 2 ^ 31"
  shows "card {r \<in> bit_vectors n. freivaldsVerify A B C ((!) r) = Some True} \<le> 2 ^ (n - 1)"
  by (rule freivaldsVerify_false_positive_bound [OF assms(1-4) exact_in_range_not_wrapped [OF assms(5,6)]])

text \<open>
  Claim C4 bounds the vectors \<open>r\<close> of \<open>{0,1}\<^sup>n\<close> that \<^verbatim>\<open>freivaldsVerify\<close> accepts by
  \<open>2 ^ (n - 1)\<close> whenever \<open>A * B \<noteq> C\<close>. The program does not keep this bound where a product
  overflows: for \<open>A = B = [[65536]]\<close> and \<open>C = [[0]]\<close> the exact product \<open>2 ^ 32\<close> differs
  from \<open>C\<close>, yet both vectors of \<open>{0,1}\<^sup>1\<close> are accepted.
\<close>

theorem freivaldsVerify_overflow_accepts_all:
  "square 1 [[65536 :: int32]] \<and> square 1 [[0 :: int32]]
   \<and> \<not> exact_product 1 [[65536]] [[65536]] [[0]]
   \<and> freivaldsVerify [[65536]] [[65536]] [[0]] ((!) [0]) = Some True
   \<and> freivaldsVerify [[65536]] [[65536]] [[0]] ((!) [1]) = Some True
   \<and> 2 ^ (1 - 1) < card {r \<in> bit_vectors 1. freivaldsVerify [[65536]] [[65536]] [[0]] ((!) r) = Some True}"
proof -
  have sq: "square 1 [[65536 :: int32]]" "square 1 [[0 :: int32]]"
    by (simp_all add: square_def)
  have w: "wrapped_product 1 [[65536]] [[65536]] [[0]]" by code_simp
  have e: "\<not> exact_product 1 [[65536]] [[65536]] [[0]]" by code_simp
  have v: "freivaldsVerify [[65536]] [[65536]] [[0]] gen = Some True" for gen
    using freivaldsVerify_square [OF _ sq(1) sq(1) sq(2), of gen] mv_assoc [OF sq(1) sq(1) sq(2) w]
    by simp
  let ?S = "{r \<in> bit_vectors 1. freivaldsVerify [[65536]] [[65536]] [[0]] ((!) r) = Some True}"
  have "{[0], [1]} \<subseteq> ?S" by (simp add: v bit_vectors_def)
  moreover have "finite ?S" by (rule finite_subset [OF _ finite_bit_vectors [of 1]]) auto
  ultimately have "card {[0], [1 :: int32]} \<le> card ?S" by (intro card_mono)
  then have "2 ^ (1 - 1) < card ?S" by simp
  with sq e v show ?thesis by simp
qed

text \<open>
  Claim C5, as amended. Unless there is an \<open>n \<ge> 1\<close> such that \<open>A\<close>, \<open>B\<close> and \<open>C\<close> have \<open>n\<close>
  rows each and first rows of length \<open>n\<close>, \<^verbatim>\<open>freivaldsVerify\<close> returns false, the value it
  also returns as a negative verdict, whatever the generator would deliver.
\<close>

theorem freivaldsVerify_invalid_dimensions:
  assumes "\<not> (\<exists>n\<ge>1. length A = n \<and> length B = n \<and> length C = n
            \<and> length (A ! 0) = n \<and> length (B ! 0) = n \<and> length (C ! 0) = n)"
  shows "freivaldsVerify A B C gen = Some False"
proof -
  have "invalid_dimensions A B C"
  proof (rule ccontr)
    assume "\<not> invalid_dimensions A B C"
    then have "1 \<le> length A \<and> length A = length A \<and> length B = length A \<and> length C = length A
        \<and> length (A ! 0) = length A \<and> length (B ! 0) = length A \<and> length (C ! 0) = length A"
      by (cases A) (auto simp: invalid_dimensions_def Let_def)
    with assms show False by blast
  qed
  then show ?thesis by (simp add: freivaldsVerify_def)
qed

theorem freivaldsVerify_invalid_dimensions_witness:
  "freivaldsVerify [[1, 2]] [[1]] [[1]] ((!) [1]) = Some False"
proof (rule freivaldsVerify_invalid_dimensions)
  show "\<not> (\<exists>n\<ge>1. length [[1, 2 :: int32]] = n \<and> length [[1 :: int32]] = n
      \<and> length [[1 :: int32]] = n \<and> length ([[1, 2 :: int32]] ! 0) = n
      \<and> length ([[1 :: int32]] ! 0) = n \<and> length ([[1 :: int32]] ! 0) = n)"
    by auto
qed

text \<open>
  Claim C5 as stated fails: a 1 by 2 matrix \<open>A\<close> is answered with the boolean false, as is
  a well-formed instance whose product is wrong.
\<close>

theorem freivaldsVerify_mismatch_counterexample:
  "\<not> square 1 [[1, 2 :: int32]]
   \<and> freivaldsVerify [[1, 2]] [[1]] [[1]] ((!) [1]) = Some False
   \<and> freivaldsVerify [[1]] [[1]] [[2]] ((!) [1]) = Some False"
proof -
  have "freivaldsVerify [[1, 2]] [[1]] [[1]] ((!) [1]) = Some False"
    by (simp add: freivaldsVerify_def invalid_dimensions_def)
  moreover have "freivaldsVerify [[1]] [[1]] [[2]] ((!) [1]) = Some False"
    using freivaldsVerify_square [of 1 "[[1]]" "[[1]]" "[[2]]" "(!) [1]"]
    by (simp add: square_def mv_def)
  ultimately show ?thesis by (simp add: square_def)
qed

text \<open>
  Claim C9. The size test looks at the row counts and at the first rows only. An input
  whose row counts and first rows have length \<open>n \<ge> 1\<close> passes it whatever the length of
  the later rows, and the products then read past the end of a row exactly when some row
  is shorter than \<open>n\<close>.
\<close>

theorem freivaldsVerify_ragged_rows:
  assumes "1 \<le> n" "length A = n" "length B = n" "length C = n"
    and "length (A ! 0) = n" "length (B ! 0) = n" "length (C ! 0) = n"
  shows "\<not> invalid_dimensions A B C
    \<and> (freivaldsVerify A B C gen = None
         \<longleftrightarrow> (\<exists>row \<in> set A \<union> set B \<union> set C. length row < n))"
proof -
  have valid: "\<not> invalid_dimensions A B C"
    using assms by (auto simp: invalid_dimensions_def Let_def)
  let ?ok = "\<lambda>M. list_all (\<lambda>row. length A \<le> length row) M"
  have ok: "(?ok A \<and> ?ok B \<and> ?ok C) \<longleftrightarrow> \<not> (\<exists>row \<in> set A \<union> set B \<union> set C. length row < n)"
    using assms(2) by (auto simp: list_all_iff not_less)
  show ?thesis
  proof (cases "?ok A \<and> ?ok B \<and> ?ok C")
    case True
    then have "freivaldsVerify A B C gen \<noteq> None"
      using freivaldsVerify_rows [OF valid, of gen] by simp
    with True ok valid show ?thesis by simp
  next
    case False
    then have "freivaldsVerify A B C gen = None"
      by (rule freivaldsVerify_short_row [OF valid])
    with False ok valid show ?thesis by simp
  qed
qed

theorem freivaldsVerify_ragged_rows_witness:
  "\<not> invalid_dimensions [[1, 2], [3]] [[1, 0], [0, 1]] [[1, 2], [3, 4]]
   \<and> freivaldsVerify [[1, 2], [3]] [[1, 0], [0, 1]] [[1, 2], [3, 4]] ((!) [1, 1]) = None"
  using freivaldsVerify_ragged_rows [of 2 "[[1, 2], [3]]" "[[1, 0], [0, 1]]" "[[1, 2], [3, 4]]" "(!) [1, 1]"]
  by simp

section \<open>Perfect matching: first facts\<close>

lemma hasPerfectMatching_run_verdict:
  "hasPerfectMatching graph gen = map_option fst (hasPerfectMatching_run graph gen)"
  by (auto simp: hasPerfectMatching_def hasPerfectMatching_run_def Let_def
      split: bind_splits prod.splits)

lemma hasPerfectMatching_run_calls:
  "hasPerfectMatching_run graph gen = Some (verdict, used, dets) \<Longrightarrow> graph \<noteq> [] \<Longrightarrow>
   \<exists>A'. dets = [A']
      \<and> edmonds_rows graph gen (length graph) 0
            (replicate (length graph) (replicate (length graph) 0), 0) = Some (A', used)
      \<and> modularDeterminant A' \<noteq> None"
  by (auto simp: hasPerfectMatching_run_def Let_def split: bind_splits prod.splits)

text \<open>
  Claim C8. On the empty adjacency matrix \<^verbatim>\<open>hasPerfectMatching\<close> returns true whatever the
  generator would deliver, and it does so without taking a value from the generator and
  without calling \<^verbatim>\<open>modularDeterminant\<close>: no value is used and the list of determinant
  calls is empty.
\<close>

theorem hasPerfectMatching_empty:
  "hasPerfectMatching [] gen = Some True \<and> hasPerfectMatching_run [] gen = Some (True, 0, [])"
  by (simp add: hasPerfectMatching_def hasPerfectMatching_run_def)

lemma power_loop_zero_base: "0 < exp \<Longrightarrow> power_loop res 0 exp = 0"
proof (induction res "0 :: int" exp rule: power_loop.induct)
  case (1 res exp)
  have base: "ll_mul 0 0 smod p = 0" by (simp add: ll_mul_def wrap64_def)
  have res: "ll_mul res 0 smod p = 0" by (simp add: ll_mul_def wrap64_def)
  have step: "power_loop res 0 exp
      = power_loop (if exp smod 2 = 1 then 0 else res) 0 (exp sdiv 2)"
    using 1(2) by (subst power_loop.simps) (simp add: base res)
  show ?case
  proof (cases "exp = 1")
    case True
    then have "exp smod 2 = 1" "exp sdiv 2 = 0"
      by (simp_all add: signed_modulo_int_def signed_divide_int_def)
    with step have "power_loop res 0 exp = power_loop 0 0 0" by simp
    also have "\<dots> = 0" by (subst power_loop.simps) simp
    finally show ?thesis .
  next
    case False
    with 1(2) have e: "0 < exp sdiv 2"
      by (simp add: signed_divide_int_def sgn_if)
    from "1.hyps" [OF 1(2)] e base
    have "power_loop (if exp smod 2 = 1 then 0 else res) 0 (exp sdiv 2) = 0"
      by (simp add: res split: if_splits)
    with step show ?thesis by simp
  qed
qed

text \<open>
  Claim C10. \<^verbatim>\<open>power(0, p - 2)\<close> is \<open>0\<close>, so \<^verbatim>\<open>modInverse(0)\<close> returns the value \<open>0\<close>: the
  function has no way to report that \<open>0\<close> has no inverse.
\<close>

theorem modInverse_zero: "power_p 0 (p - 2) = 0 \<and> modInverse 0 = 0"
proof -
  have "power_p 0 (p - 2) = 0"
    unfolding power_p_def by (simp add: power_loop_zero_base p_def)
  then show ?thesis by (simp add: modInverse_def)
qed

section \<open>The trace of modularDeterminant: calls of modInverse\<close>

lemma rd2_Some_iff:
  "rd2 A i j = Some a \<longleftrightarrow> i < length A \<and> j < length (A ! i) \<and> a = A ! i ! j"
  by (auto simp: rd2_def rd_def)

lemma elim_cols_unfold:
  "j < n \<Longrightarrow> rd2 A k j = Some akj \<Longrightarrow> rd2 A i j = Some aij \<Longrightarrow>
   v = ll_add (ll_sub aij (ll_mul factor akj smod p)) p smod p \<Longrightarrow>
   elim_cols n k i factor j (A, tr) = elim_cols n k i factor (Suc j) (wr2 A i j v, Store i j v # tr)"
  by (subst elim_cols.simps) (simp add: Let_def)

lemma elim_cols_done: "\<not> j < n \<Longrightarrow> elim_cols n k i factor j (A, tr) = Some (A, tr)"
  by (subst elim_cols.simps) simp

lemma elim_cols_reads:
  "elim_cols n k i factor j (A, tr) \<noteq> None \<Longrightarrow> j < n \<Longrightarrow>
   \<exists>akj aij. rd2 A k j = Some akj \<and> rd2 A i j = Some aij"
  by (subst (asm) elim_cols.simps) (auto split: bind_splits)

lemma elim_cols_keeps:
  "elim_cols n k i factor j (A, tr) = Some (A', tr') \<Longrightarrow> i \<noteq> k \<Longrightarrow>
   length A' = length A \<and> A' ! k = A ! k \<and> (Inverse 0 \<in> set tr' \<longleftrightarrow> Inverse 0 \<in> set tr)"
proof (induction "n - j" arbitrary: j A tr)
  case 0
  then show ?case by (simp add: elim_cols_done)
next
  case (Suc m)
  then have lt: "j < n" by simp
  from Suc(3) elim_cols_reads [OF _ lt, of k i factor A tr]
  obtain akj aij where rds: "rd2 A k j = Some akj" "rd2 A i j = Some aij" by auto
  define v where "v = ll_add (ll_sub aij (ll_mul factor akj smod p)) p smod p"
  from Suc(3) have rec: "elim_cols n k i factor (Suc j) (wr2 A i j v, Store i j v # tr) = Some (A', tr')"
    by (simp add: elim_cols_unfold [OF lt rds v_def])
  have "length A' = length (wr2 A i j v) \<and> A' ! k = wr2 A i j v ! k
      \<and> (Inverse 0 \<in> set tr' \<longleftrightarrow> Inverse 0 \<in> set (Store i j v # tr))"
    using Suc(2) by (intro Suc(1) [OF _ rec Suc(4)]) simp
  then show ?case using Suc(4) by (simp add: wr2_def)
qed

lemma elim_rows_unfold:
  "i < n \<Longrightarrow> rd2 A i k = Some aik \<Longrightarrow> rd2 A k k = Some akk \<Longrightarrow>
   elim_rows n k i (A, tr)
     = do { s \<leftarrow> elim_cols n k i (ll_mul aik (modInverse akk) smod p) k (A, Inverse akk # tr);
            elim_rows n k (Suc i) s }"
  by (subst elim_rows.simps) (simp add: Let_def)

lemma elim_rows_done: "\<not> i < n \<Longrightarrow> elim_rows n k i (A, tr) = Some (A, tr)"
  by (subst elim_rows.simps) simp

lemma elim_rows_reads:
  "elim_rows n k i (A, tr) \<noteq> None \<Longrightarrow> i < n \<Longrightarrow>
   \<exists>aik akk. rd2 A i k = Some aik \<and> rd2 A k k = Some akk"
  by (subst (asm) elim_rows.simps) (auto split: bind_splits)

lemma elim_rows_inverse:
  "elim_rows n k i (A, tr) = Some (A', tr') \<Longrightarrow> k < i \<Longrightarrow> rd2 A k k = Some a \<Longrightarrow> a \<noteq> 0 \<Longrightarrow>
   Inverse 0 \<notin> set tr \<Longrightarrow> Inverse 0 \<notin> set tr'"
proof (induction "n - i" arbitrary: i A tr)
  case 0
  then show ?case by (simp add: elim_rows_done)
next
  case (Suc m)
  then have lt: "i < n" by simp
  from Suc(3) elim_rows_reads [OF _ lt, of k A tr]
  obtain aik where aik: "rd2 A i k = Some aik" by auto
  from Suc(3) obtain A1 tr1 where
    cols: "elim_cols n k i (ll_mul aik (modInverse a) smod p) k (A, Inverse a # tr) = Some (A1, tr1)"
    and rec: "elim_rows n k (Suc i) (A1, tr1) = Some (A', tr')"
    by (auto simp: elim_rows_unfold [OF lt aik Suc(5)] split: bind_splits)
  from elim_cols_keeps [OF cols] Suc(4)
  have keep: "length A1 = length A" "A1 ! k = A ! k"
    and tr1: "Inverse 0 \<in> set tr1 \<longleftrightarrow> Inverse 0 \<in> set (Inverse a # tr)"
    by auto
  from keep Suc(5) have "rd2 A1 k k = Some a" by (simp add: rd2_Some_iff)
  moreover from tr1 Suc(6,7) have "Inverse 0 \<notin> set tr1" by simp
  ultimately show ?case
    using Suc(2,4,6) by (intro Suc(1) [OF _ rec]) simp_all
qed

lemma find_pivot_unfold:
  "find_pivot A n k pivot =
     (if pivot < n then
        do { a \<leftarrow> rd2 A pivot k;
             if a = 0 then find_pivot A n k (Suc pivot) else Some pivot }
      else Some pivot)"
  by (rule find_pivot.simps)

lemma find_pivot_nonzero:
  "find_pivot A n k pivot = Some pv \<Longrightarrow> pv < n \<Longrightarrow>
   pivot \<le> pv \<and> (\<exists>a. rd2 A pv k = Some a \<and> a \<noteq> 0)"
proof (induction "n - pivot" arbitrary: pivot)
  case 0
  then show ?case by (subst (asm) find_pivot_unfold) simp
next
  case (Suc m)
  then have lt: "pivot < n" by simp
  from Suc(3) lt obtain a where a: "rd2 A pivot k = Some a"
    by (subst (asm) find_pivot_unfold) (auto split: bind_splits)
  show ?case
  proof (cases "a = 0")
    case True
    with Suc(3) lt a have "find_pivot A n k (Suc pivot) = Some pv"
      by (subst (asm) find_pivot_unfold) simp
    moreover from Suc(2) have "m = n - Suc pivot" by simp
    ultimately have "Suc pivot \<le> pv \<and> (\<exists>a. rd2 A pv k = Some a \<and> a \<noteq> 0)"
      using Suc(4) by (intro Suc(1))
    then show ?thesis by auto
  next
    case False
    with Suc(3) lt a have "pv = pivot"
      by (subst (asm) find_pivot_unfold) simp
    with a False show ?thesis by simp
  qed
qed

lemma find_pivot_first_read:
  "find_pivot A n k pivot \<noteq> None \<Longrightarrow> pivot < n \<Longrightarrow> pivot < length A"
  by (subst (asm) find_pivot_unfold) (auto simp: rd2_Some_iff split: bind_splits)

lemma diag_loop_unfold:
  "i < n \<Longrightarrow> rd2 A i i = Some aii \<Longrightarrow> det' = ll_mul det aii smod p \<Longrightarrow>
   diag_loop n i A (det, tr) = diag_loop n (Suc i) A (det', Det det' # tr)"
  by (subst diag_loop.simps) (simp add: Let_def)

lemma diag_loop_done: "\<not> i < n \<Longrightarrow> diag_loop n i A (det, tr) = Some (det, tr)"
  by (subst diag_loop.simps) simp

lemma diag_loop_reads:
  "diag_loop n i A (det, tr) \<noteq> None \<Longrightarrow> i < n \<Longrightarrow> \<exists>aii. rd2 A i i = Some aii"
  by (subst (asm) diag_loop.simps) (auto split: bind_splits)

lemma diag_loop_inverse:
  "diag_loop n i A (det, tr) = Some (det', tr') \<Longrightarrow>
   (Inverse 0 \<in> set tr' \<longleftrightarrow> Inverse 0 \<in> set tr)"
proof (induction "n - i" arbitrary: i det tr)
  case 0
  then show ?case by (simp add: diag_loop_done)
next
  case (Suc m)
  then have lt: "i < n" by simp
  from Suc(3) diag_loop_reads [OF _ lt, of A det tr]
  obtain aii where aii: "rd2 A i i = Some aii" by auto
  from Suc(3) have rec: "diag_loop n (Suc i) A (ll_mul det aii smod p, Det (ll_mul det aii smod p) # tr)
      = Some (det', tr')"
    by (simp add: diag_loop_unfold [OF lt aii refl])
  have "Inverse 0 \<in> set tr' \<longleftrightarrow> Inverse 0 \<in> set (Det (ll_mul det aii smod p) # tr)"
    using Suc(2) by (intro Suc(1) [OF _ rec]) simp
  then show ?case by simp
qed

lemma elim_loop_done:
  "\<not> k < n \<Longrightarrow> elim_loop n k (A, det, tr)
     = do { (det', tr') \<leftarrow> diag_loop n 0 A (det, tr); Some (ll_add det' p smod p, A, tr') }"
  by (subst elim_loop.simps) simp

lemma elim_loop_unfold:
  "k < n \<Longrightarrow> elim_loop n k (A, det, tr)
     = do { pivot \<leftarrow> find_pivot A n k k;
             if pivot = n then Some (0, A, tr)
             else
               (case swap_rows k pivot (A, det, tr) of (A1, det1, tr1) \<Rightarrow>
                  do { (A2, tr2) \<leftarrow> elim_rows n k (Suc k) (A1, tr1);
                       elim_loop n (Suc k) (A2, det1, tr2) }) }"
  by (subst elim_loop.simps) simp

lemma find_pivot_le:
  "find_pivot A n k pivot = Some pv \<Longrightarrow> pivot \<le> n \<Longrightarrow> pv \<le> n"
proof (induction "n - pivot" arbitrary: pivot)
  case 0
  then show ?case by (subst (asm) find_pivot_unfold) simp
next
  case (Suc m)
  then have lt: "pivot < n" by simp
  from Suc(3) lt obtain a where a: "rd2 A pivot k = Some a"
    by (subst (asm) find_pivot_unfold) (auto split: bind_splits)
  show ?case
  proof (cases "a = 0")
    case True
    with Suc(3) lt a have "find_pivot A n k (Suc pivot) = Some pv"
      by (subst (asm) find_pivot_unfold) simp
    moreover from Suc(2) have "m = n - Suc pivot" by simp
    moreover from lt have "Suc pivot \<le> n" by simp
    ultimately show ?thesis by (intro Suc(1))
  next
    case False
    with Suc(3) lt a have "pv = pivot"
      by (subst (asm) find_pivot_unfold) simp
    with lt show ?thesis by simp
  qed
qed

lemma swap_rows_pivot:
  assumes "swap_rows k pv (A, det, tr) = (A1, det1, tr1)"
    and "k < length A" "rd2 A pv k = Some a"
  shows "rd2 A1 k k = Some a" and "Inverse 0 \<in> set tr1 \<longleftrightarrow> Inverse 0 \<in> set tr"
  using assms by (auto simp: swap_rows_def Let_def rd2_Some_iff nth_list_update split: if_splits)

lemma elim_loop_inverse:
  "elim_loop n k (A, det, tr) = Some (d, A', tr') \<Longrightarrow> Inverse 0 \<notin> set tr \<Longrightarrow> Inverse 0 \<notin> set tr'"
proof (induction "n - k" arbitrary: k A det tr)
  case 0
  then have "\<not> k < n" by simp
  with 0(2) obtain det' where "diag_loop n 0 A (det, tr) = Some (det', tr')"
    by (auto simp: elim_loop_done split: bind_splits)
  from diag_loop_inverse [OF this] 0(3) show ?case by simp
next
  case (Suc m)
  then have lt: "k < n" by simp
  from Suc(3) obtain pv where pv: "find_pivot A n k k = Some pv"
    by (auto simp: elim_loop_unfold [OF lt] split: bind_splits)
  show ?case
  proof (cases "pv = n")
    case True
    with Suc(3,4) pv show ?thesis by (simp add: elim_loop_unfold [OF lt])
  next
    case False
    from find_pivot_le [OF pv] lt False have pvn: "pv < n" by simp
    from find_pivot_nonzero [OF pv pvn] obtain a where a: "rd2 A pv k = Some a" "a \<noteq> 0"
      by auto
    from find_pivot_first_read [OF _ lt, of A k] pv have kA: "k < length A" by simp
    obtain A1 det1 tr1 where sw: "swap_rows k pv (A, det, tr) = (A1, det1, tr1)"
      by (cases "swap_rows k pv (A, det, tr)") auto
    from Suc(3) pv False sw obtain A2 tr2 where
      rows: "elim_rows n k (Suc k) (A1, tr1) = Some (A2, tr2)"
      and rec: "elim_loop n (Suc k) (A2, det1, tr2) = Some (d, A', tr')"
      by (auto simp: elim_loop_unfold [OF lt] split: bind_splits)
    from swap_rows_pivot [OF sw kA a(1)] Suc(4)
    have "rd2 A1 k k = Some a" "Inverse 0 \<notin> set tr1" by simp_all
    from elim_rows_inverse [OF rows _ this(1) a(2) this(2)]
    have "Inverse 0 \<notin> set tr2" by simp
    with Suc(2) show ?thesis by (intro Suc(1) [OF _ rec]) simp_all
  qed
qed

section \<open>Arithmetic in the field\<close>

lemma p_pos: "0 < p" "1 < p" "p \<noteq> 0"
  by (simp_all add: p_def)

lemma wrap64_id: "- (2 ^ 63) \<le> x \<Longrightarrow> x < 2 ^ 63 \<Longrightarrow> wrap64 x = x"
  by (simp add: wrap64_def)

lemma field_product_bound:
  assumes "in_field a" "in_field b" shows "0 \<le> a * b" "a * b < 2 ^ 63"
proof -
  from assms show "0 \<le> a * b" by (simp add: in_field_def)
  from assms have "a * b \<le> (p - 1) * (p - 1)"
    by (intro mult_mono) (simp_all add: in_field_def)
  also have "\<dots> < 2 ^ 63" by (simp add: p_def)
  finally show "a * b < 2 ^ 63" .
qed

lemma in_field_mod [simp]: "in_field (x mod p)"
  by (simp add: in_field_def p_def)

lemma ll_mul_field:
  assumes "in_field a" "in_field b" shows "ll_mul a b smod p = (a * b) mod p"
proof -
  from field_product_bound [OF assms] have "wrap64 (a * b) = a * b"
    by (intro wrap64_id) simp_all
  with field_product_bound(1) [OF assms] show ?thesis
    by (simp add: ll_mul_def smod_mod_positive p_def)
qed

lemma ll_sub_add_field:
  assumes "in_field a" "in_field t"
  shows "ll_add (ll_sub a t) p smod p = (a - t) mod p"
proof -
  from assms have 1: "ll_sub a t = a - t"
    unfolding ll_sub_def by (intro wrap64_id) (simp_all add: in_field_def p_def)
  from assms have 2: "ll_add (a - t) p = a - t + p"
    unfolding ll_add_def by (intro wrap64_id) (simp_all add: in_field_def p_def)
  from assms have "0 \<le> a - t + p" by (simp add: in_field_def)
  then have "(a - t + p) smod p = (a - t + p) mod p"
    by (simp add: smod_mod_positive p_def)
  then show ?thesis by (simp add: 1 2)
qed

lemma ll_neg_field:
  assumes "in_field d" shows "ll_sub p d smod p = (- d) mod p"
proof -
  from assms have 1: "ll_sub p d = p - d"
    unfolding ll_sub_def by (intro wrap64_id) (simp_all add: in_field_def p_def)
  from assms have "0 \<le> p - d" by (simp add: in_field_def)
  then have "(p - d) smod p = (p - d) mod p"
    by (simp add: smod_mod_positive p_def)
  also have "\<dots> = (- d) mod p"
    by (metis add.commute mod_add_self2 uminus_add_conv_diff)
  finally show ?thesis by (simp add: 1)
qed

lemma ll_final_field:
  assumes "in_field d" shows "ll_add d p smod p = d"
proof -
  from assms have 1: "ll_add d p = d + p"
    unfolding ll_add_def by (intro wrap64_id) (simp_all add: in_field_def p_def)
  from assms have "(d + p) smod p = (d + p) mod p"
    by (simp add: smod_mod_positive p_def in_field_def)
  with assms show ?thesis by (simp add: 1 in_field_def)
qed

lemma power_loop_unfold:
  "power_loop res base exp =
     (if exp > 0 then
        power_loop (if exp smod 2 = 1 then ll_mul res base smod p else res)
          (ll_mul base base smod p) (exp sdiv 2)
      else res)"
  by (rule power_loop.simps)

lemma power_loop_field:
  "in_field res \<Longrightarrow> in_field base \<Longrightarrow> 0 \<le> exp \<Longrightarrow>
   power_loop res base exp = (res * base ^ nat exp) mod p"
proof (induction "nat exp" arbitrary: res base exp rule: less_induct)
  case less
  show ?case
  proof (cases "exp = 0")
    case True
    with less(2) show ?thesis
      by (subst power_loop_unfold) (simp add: in_field_def)
  next
    case False
    with less(4) have pos: "0 < exp" by simp
    then have sm: "exp smod 2 = exp mod 2" and sd: "exp sdiv 2 = exp div 2"
      by (simp_all add: smod_mod_positive signed_divide_int_def sgn_if)
    let ?res = "if exp mod 2 = 1 then (res * base) mod p else res"
    let ?base = "(base * base) mod p"
    have step: "power_loop res base exp = power_loop ?res ?base (exp div 2)"
      using pos by (subst power_loop_unfold)
        (simp add: sm sd ll_mul_field [OF less(2,3)] ll_mul_field [OF less(3,3)])
    have res': "in_field ?res" using less(2) by simp
    have "power_loop ?res ?base (exp div 2) = (?res * ?base ^ nat (exp div 2)) mod p"
      using pos by (intro less(1) res') simp_all
    also have "\<dots> = (?res * (base * base) ^ nat (exp div 2)) mod p"
      by (metis mod_mult_right_eq power_mod)
    also have "(base * base) ^ nat (exp div 2) = base ^ (2 * nat (exp div 2))"
      by (simp add: power_mult power2_eq_square)
    also have "(?res * base ^ (2 * nat (exp div 2))) mod p = (res * base ^ nat exp) mod p"
    proof (cases "exp mod 2 = 1")
      case True
      then have "exp = 2 * (exp div 2) + 1" by presburger
      moreover from pos have "0 \<le> exp div 2" by simp
      ultimately have e: "nat exp = Suc (2 * nat (exp div 2))" by linarith
      have "((res * base) mod p * base ^ (2 * nat (exp div 2))) mod p
          = (res * base * base ^ (2 * nat (exp div 2))) mod p"
        by (rule mod_mult_left_eq)
      with True show ?thesis by (simp add: e mult.assoc)
    next
      case False
      then have "exp = 2 * (exp div 2)" by presburger
      moreover from pos have "0 \<le> exp div 2" by simp
      ultimately have e: "nat exp = 2 * nat (exp div 2)" by linarith
      with False show ?thesis by simp
    qed
    finally show ?thesis using step by simp
  qed
qed

lemma power_p_field:
  "in_field base \<Longrightarrow> 0 \<le> exp \<Longrightarrow> power_p base exp = base ^ nat exp mod p"
  unfolding power_p_def
  using power_loop_field [of 1 "base" exp]
  by (simp add: in_field_def smod_mod_positive p_def)

lemma modInverse_field: "in_field a \<Longrightarrow> modInverse a = a ^ nat (p - 2) mod p"
  unfolding modInverse_def by (rule power_p_field) (simp_all add: p_def)

lemma modInverse_in_field: "in_field a \<Longrightarrow> in_field (modInverse a)"
  by (simp add: modInverse_field)

section \<open>The loops of modularDeterminant\<close>

lemma nth_update_if:
  "xs[i := x] ! j = (if i = j \<and> i < length xs then x else xs ! j)"
  by (cases "i < length xs") (simp_all add: nth_list_update list_update_beyond not_less)

lemma square_length: "square n A \<Longrightarrow> length A = n"
  by (simp add: square_def)

lemma square_row: "square n A \<Longrightarrow> i < n \<Longrightarrow> length (A ! i) = n"
  by (simp add: square_def list_all_length)

lemma square_rd2: "square n A \<Longrightarrow> i < n \<Longrightarrow> j < n \<Longrightarrow> rd2 A i j = Some (A ! i ! j)"
  by (simp add: rd2_Some_iff square_length square_row)

lemma field_entry:
  "square n A \<Longrightarrow> field_matrix A \<Longrightarrow> i < n \<Longrightarrow> j < n \<Longrightarrow> in_field (A ! i ! j)"
  by (simp add: field_matrix_def square_def list_all_length)

lemma square_update:
  "square n A \<Longrightarrow> length row = n \<Longrightarrow> square n (A[i := row])"
  by (auto simp: square_def list_all_length nth_update_if)

lemma field_update:
  "field_matrix A \<Longrightarrow> list_all in_field row \<Longrightarrow> field_matrix (A[i := row])"
  by (auto simp: field_matrix_def list_all_length nth_update_if)

lemma field_row: "square n A \<Longrightarrow> field_matrix A \<Longrightarrow> i < n \<Longrightarrow> list_all in_field (A ! i)"
  by (simp add: field_matrix_def square_def list_all_length)

lemma wr2_square: "square n A \<Longrightarrow> square n (wr2 A i j v)"
  by (auto simp: wr2_def square_def list_all_length nth_update_if)

lemma wr2_field: "field_matrix A \<Longrightarrow> in_field v \<Longrightarrow> field_matrix (wr2 A i j v)"
  by (auto simp: wr2_def field_matrix_def list_all_length nth_update_if)

lemma wr2_nth:
  "square n A \<Longrightarrow> i < n \<Longrightarrow> j < n \<Longrightarrow>
   wr2 A i j v ! r ! c = (if r = i \<and> c = j then v else A ! r ! c)"
  by (auto simp: wr2_def square_def list_all_length nth_list_update)

lemma wr2_other_row: "r \<noteq> i \<Longrightarrow> wr2 A i j v ! r = A ! r"
  by (simp add: wr2_def)

lemma wr2_overwrite: "(wr2 A i j v)[i := row] = A[i := row]"
  by (simp add: wr2_def)

lemma elim_cols_spec:
  assumes "i < n" "k < n" "i \<noteq> k" "in_field factor"
  shows "square n A \<Longrightarrow> field_matrix A \<Longrightarrow> j \<le> n \<Longrightarrow>
    \<exists>st. elim_cols n k i factor j (A, tr)
        = Some (A[i := map (\<lambda>c. if c < j then A ! i ! c
                                else (A ! i ! c - factor * A ! k ! c) mod p) [0..<n]], st @ tr)
      \<and> list_all event_in_field st"
proof (induction "n - j" arbitrary: j A tr)
  case 0
  then have "j = n" by simp
  moreover have "map (\<lambda>c. if c < n then A ! i ! c else (A ! i ! c - factor * A ! k ! c) mod p) [0..<n]
      = A ! i"
    using square_row [OF 0(2) assms(1)] by (auto intro: nth_equalityI)
  ultimately show ?case by (simp add: elim_cols_done)
next
  case (Suc m)
  then have lt: "j < n" by simp
  let ?v = "(A ! i ! j - factor * A ! k ! j) mod p"
  let ?A1 = "wr2 A i j ?v"
  have fk: "in_field (A ! k ! j)" and fi: "in_field (A ! i ! j)"
    using field_entry [OF Suc(3,4)] assms lt by simp_all
  have v: "?v = ll_add (ll_sub (A ! i ! j) (ll_mul factor (A ! k ! j) smod p)) p smod p"
    by (simp add: ll_mul_field [OF assms(4) fk] ll_sub_add_field [OF fi] mod_diff_right_eq)
  have step: "elim_cols n k i factor j (A, tr)
      = elim_cols n k i factor (Suc j) (?A1, Store i j ?v # tr)"
    by (rule elim_cols_unfold [OF lt square_rd2 [OF Suc(3) assms(2) lt]
          square_rd2 [OF Suc(3) assms(1) lt] v])
  from Suc(2) have m: "m = n - Suc j" by simp
  from lt have le: "Suc j \<le> n" by simp
  have "\<exists>st. elim_cols n k i factor (Suc j) (?A1, Store i j ?v # tr)
      = Some (?A1[i := map (\<lambda>c. if c < Suc j then ?A1 ! i ! c
            else (?A1 ! i ! c - factor * ?A1 ! k ! c) mod p) [0..<n]], st @ Store i j ?v # tr)
      \<and> list_all event_in_field st"
    by (rule Suc(1) [OF m wr2_square [OF Suc(3)] wr2_field [OF Suc(4)] le]) simp
  then obtain st where rec: "elim_cols n k i factor (Suc j) (?A1, Store i j ?v # tr)
      = Some (?A1[i := map (\<lambda>c. if c < Suc j then ?A1 ! i ! c
            else (?A1 ! i ! c - factor * ?A1 ! k ! c) mod p) [0..<n]], st @ Store i j ?v # tr)"
    and st: "list_all event_in_field st"
    by auto
  have "map (\<lambda>c. if c < Suc j then ?A1 ! i ! c
            else (?A1 ! i ! c - factor * ?A1 ! k ! c) mod p) [0..<n]
      = map (\<lambda>c. if c < j then A ! i ! c else (A ! i ! c - factor * A ! k ! c) mod p) [0..<n]"
    using assms(1,3) lt by (auto simp: wr2_nth [OF Suc(3)] wr2_other_row less_Suc_eq)
  with rec step have "elim_cols n k i factor j (A, tr)
      = Some (A[i := map (\<lambda>c. if c < j then A ! i ! c
                else (A ! i ! c - factor * A ! k ! c) mod p) [0..<n]], (st @ [Store i j ?v]) @ tr)"
    by (simp add: wr2_overwrite)
  moreover have "list_all event_in_field (st @ [Store i j ?v])"
    using st by simp
  ultimately show ?case by blast
qed

lemma length_elim_row [simp]: "length (elim_row k f rk ri) = length ri"
  by (simp add: elim_row_def)

lemma elim_row_nth:
  "c < length ri \<Longrightarrow>
   elim_row k f rk ri ! c = (if c < k then ri ! c else (ri ! c - f * rk ! c) mod p)"
  by (simp add: elim_row_def)

lemma elim_row_field: "list_all in_field ri \<Longrightarrow> list_all in_field (elim_row k f rk ri)"
  by (auto simp: list_all_length elim_row_nth)

lemma elim_factor_field: "in_field (elim_factor A k r)"
  by (simp add: elim_factor_def)

lemma length_elim_from [simp]: "length (elim_from k i A) = length A"
  by (simp add: elim_from_def)

lemma elim_from_nth:
  "r < length A \<Longrightarrow>
   elim_from k i A ! r = (if r < i then A ! r else elim_row k (elim_factor A k r) (A ! k) (A ! r))"
  by (simp add: elim_from_def)

lemma elim_from_square: "square n A \<Longrightarrow> square n (elim_from k i A)"
  by (auto simp: square_def list_all_length elim_from_nth)

lemma elim_from_field: "field_matrix A \<Longrightarrow> field_matrix (elim_from k i A)"
  unfolding field_matrix_def
  by (subst list_all_length, subst (asm) list_all_length) (auto simp: elim_from_nth elim_row_field)

lemma elim_from_end: "length A \<le> i \<Longrightarrow> elim_from k i A = A"
  by (auto simp: elim_from_def intro: nth_equalityI)

lemma elim_from_step:
  assumes "i < length A" "k < i"
  shows "elim_from k (Suc i) (A[i := elim_row k (elim_factor A k i) (A ! k) (A ! i)]) = elim_from k i A"
proof (rule nth_equalityI)
  let ?A1 = "A[i := elim_row k (elim_factor A k i) (A ! k) (A ! i)]"
  show "length (elim_from k (Suc i) ?A1) = length (elim_from k i A)" by simp
  fix r assume "r < length (elim_from k (Suc i) ?A1)"
  then have r: "r < length A" by simp
  have k: "?A1 ! k = A ! k" using assms by simp
  have f: "elim_factor ?A1 k r = elim_factor A k r" if "r \<noteq> i"
    using that assms by (simp add: elim_factor_def)
  show "elim_from k (Suc i) ?A1 ! r = elim_from k i A ! r"
    using r assms by (auto simp: elim_from_nth k f nth_list_update less_Suc_eq)
qed

lemma elim_rows_spec:
  assumes "k < n"
  shows "square n A \<Longrightarrow> field_matrix A \<Longrightarrow> k < i \<Longrightarrow>
    \<exists>st. elim_rows n k i (A, tr) = Some (elim_from k i A, st @ tr) \<and> list_all event_in_field st"
proof (induction "n - i" arbitrary: i A tr)
  case 0
  then have "n \<le> i" by simp
  then show ?case
    using square_length [OF 0(2)] by (simp add: elim_rows_done elim_from_end)
next
  case (Suc m)
  then have lt: "i < n" by simp
  from Suc(5) have ik: "i \<noteq> k" by simp
  have n: "length A = n" by (rule square_length [OF Suc(3)])
  let ?akk = "A ! k ! k"
  let ?f = "elim_factor A k i"
  have fik: "in_field (A ! i ! k)" and fkk: "in_field ?akk"
    using field_entry [OF Suc(3,4)] assms lt by simp_all
  have f: "ll_mul (A ! i ! k) (modInverse ?akk) smod p = ?f"
    by (simp add: ll_mul_field [OF fik modInverse_in_field [OF fkk]] elim_factor_def)
  have step: "elim_rows n k i (A, tr)
      = do { s \<leftarrow> elim_cols n k i ?f k (A, Inverse ?akk # tr); elim_rows n k (Suc i) s }"
    using elim_rows_unfold [OF lt square_rd2 [OF Suc(3) lt assms] square_rd2 [OF Suc(3) assms assms], of tr]
    by (simp add: f)
  let ?row = "elim_row k ?f (A ! k) (A ! i)"
  from elim_cols_spec [OF lt assms ik elim_factor_field Suc(3,4), of k A k i "Inverse ?akk # tr"] assms
  obtain st1 where cols: "elim_cols n k i ?f k (A, Inverse ?akk # tr)
      = Some (A[i := ?row], st1 @ Inverse ?akk # tr)"
    and st1: "list_all event_in_field st1"
    by (auto simp: elim_row_def square_row [OF Suc(3) lt])
  let ?A1 = "A[i := ?row]"
  have sq1: "square n ?A1"
    by (rule square_update [OF Suc(3)]) (simp add: square_row [OF Suc(3) lt])
  have fm1: "field_matrix ?A1"
    by (rule field_update [OF Suc(4) elim_row_field [OF field_row [OF Suc(3,4) lt]]])
  from Suc(2) have m: "m = n - Suc i" by simp
  from Suc(5) have ki: "k < Suc i" by simp
  have "\<exists>st. elim_rows n k (Suc i) (?A1, st1 @ Inverse ?akk # tr)
      = Some (elim_from k (Suc i) ?A1, st @ st1 @ Inverse ?akk # tr) \<and> list_all event_in_field st"
    by (rule Suc(1) [OF m sq1 fm1 ki])
  then obtain st2 where rec: "elim_rows n k (Suc i) (?A1, st1 @ Inverse ?akk # tr)
      = Some (elim_from k (Suc i) ?A1, st2 @ st1 @ Inverse ?akk # tr)"
    and st2: "list_all event_in_field st2"
    by auto
  have "elim_rows n k i (A, tr) = Some (elim_from k i A, (st2 @ st1 @ [Inverse ?akk]) @ tr)"
    using step cols rec elim_from_step [of i A k] lt n Suc(5) by simp
  moreover have "list_all event_in_field (st2 @ st1 @ [Inverse ?akk])"
    using st1 st2 fkk by simp
  ultimately show ?case by blast
qed

lemma find_pivot_spec:
  assumes "square n A" "k < n"
  shows "pivot \<le> n \<Longrightarrow>
    \<exists>pv. find_pivot A n k pivot = Some pv \<and> pivot \<le> pv \<and> pv \<le> n
      \<and> (\<forall>r. pivot \<le> r \<and> r < pv \<longrightarrow> A ! r ! k = 0) \<and> (pv < n \<longrightarrow> A ! pv ! k \<noteq> 0)"
proof (induction "n - pivot" arbitrary: pivot)
  case 0
  then show ?case by (subst find_pivot_unfold) simp
next
  case (Suc m)
  then have lt: "pivot < n" by simp
  note rd = square_rd2 [OF assms(1) lt assms(2)]
  show ?case
  proof (cases "A ! pivot ! k = 0")
    case True
    from Suc(2) have m: "m = n - Suc pivot" by simp
    from lt have le: "Suc pivot \<le> n" by simp
    from Suc(1) [OF m le] obtain pv where pv: "find_pivot A n k (Suc pivot) = Some pv"
      "Suc pivot \<le> pv" "pv \<le> n" "\<forall>r. Suc pivot \<le> r \<and> r < pv \<longrightarrow> A ! r ! k = 0"
      "pv < n \<longrightarrow> A ! pv ! k \<noteq> 0"
      by auto
    have "find_pivot A n k pivot = Some pv"
      using lt rd True pv(1) by (subst find_pivot_unfold) simp
    moreover have "\<forall>r. pivot \<le> r \<and> r < pv \<longrightarrow> A ! r ! k = 0"
      using pv(4) True by (metis Suc_leI le_neq_implies_less)
    ultimately show ?thesis using pv(2,3,5) by auto
  next
    case False
    have "find_pivot A n k pivot = Some pivot"
      using lt rd False by (subst find_pivot_unfold) simp
    with False lt show ?thesis by auto
  qed
qed

lemma diag_loop_spec:
  assumes "square n A" "field_matrix A"
  shows "in_field det \<Longrightarrow> i \<le> n \<Longrightarrow>
    \<exists>st. diag_loop n i A (det, tr) = Some ((det * (\<Prod>r = i..<n. A ! r ! r)) mod p, st @ tr)
      \<and> list_all event_in_field st"
proof (induction "n - i" arbitrary: i det tr)
  case 0
  then show ?case by (simp add: diag_loop_done in_field_def)
next
  case (Suc m)
  then have lt: "i < n" by simp
  let ?d = "(det * A ! i ! i) mod p"
  have d: "?d = ll_mul det (A ! i ! i) smod p"
    by (simp add: ll_mul_field [OF Suc(3) field_entry [OF assms lt lt]])
  note step = diag_loop_unfold [OF lt square_rd2 [OF assms(1) lt lt] d, of tr]
  from Suc(2) have m: "m = n - Suc i" by simp
  from lt have le: "Suc i \<le> n" by simp
  have "\<exists>st. diag_loop n (Suc i) A (?d, Det ?d # tr)
      = Some ((?d * (\<Prod>r = Suc i..<n. A ! r ! r)) mod p, st @ Det ?d # tr)
      \<and> list_all event_in_field st"
    by (rule Suc(1) [OF m _ le]) simp
  then obtain st where rec: "diag_loop n (Suc i) A (?d, Det ?d # tr)
      = Some ((?d * (\<Prod>r = Suc i..<n. A ! r ! r)) mod p, st @ Det ?d # tr)"
    and st: "list_all event_in_field st"
    by auto
  have "(?d * (\<Prod>r = Suc i..<n. A ! r ! r)) mod p = (det * (\<Prod>r = i..<n. A ! r ! r)) mod p"
    using lt by (simp add: prod.atLeast_Suc_lessThan mod_mult_left_eq mult.assoc)
  with step rec have "diag_loop n i A (det, tr)
      = Some ((det * (\<Prod>r = i..<n. A ! r ! r)) mod p, (st @ [Det ?d]) @ tr)"
    by simp
  moreover have "list_all event_in_field (st @ [Det ?d])" using st by simp
  ultimately show ?case by blast
qed

section \<open>The values of modularDeterminant stay in the field\<close>

lemma swapped_same [simp]: "swapped k k A = A"
  by (simp add: swapped_def)

lemma swapped_square: "square n A \<Longrightarrow> k < n \<Longrightarrow> pv < n \<Longrightarrow> square n (swapped k pv A)"
  unfolding swapped_def
  by (intro square_update) (simp_all add: square_row)

lemma swapped_field:
  "square n A \<Longrightarrow> field_matrix A \<Longrightarrow> k < n \<Longrightarrow> pv < n \<Longrightarrow> field_matrix (swapped k pv A)"
  unfolding swapped_def
  by (intro field_update) (simp_all add: field_row)

lemma swap_rows_spec:
  assumes "in_field det"
  shows "\<exists>st. swap_rows k pv (A, det, tr)
      = (swapped k pv A, (if k \<noteq> pv then (- det) mod p else det), st @ tr)
    \<and> list_all event_in_field st"
proof (cases "k = pv")
  case True
  then have "swap_rows k pv (A, det, tr) = (swapped k pv A, det, [] @ tr)"
    by (simp add: swap_rows_def)
  with True show ?thesis by auto
next
  case False
  then have "swap_rows k pv (A, det, tr)
      = (swapped k pv A, (- det) mod p, [Det ((- det) mod p)] @ tr)"
    by (simp add: swap_rows_def swapped_def Let_def ll_neg_field [OF assms])
  with False show ?thesis by auto
qed

lemma elim_loop_field:
  "square n A \<Longrightarrow> field_matrix A \<Longrightarrow> in_field det \<Longrightarrow>
   \<exists>d A' st. elim_loop n k (A, det, tr) = Some (d, A', st @ tr)
     \<and> in_field d \<and> square n A' \<and> field_matrix A' \<and> list_all event_in_field st"
proof (induction "n - k" arbitrary: k A det tr)
  case 0
  then have nk: "\<not> k < n" by simp
  let ?d = "(det * (\<Prod>r = 0..<n. A ! r ! r)) mod p"
  from diag_loop_spec [OF 0(2,3,4), of 0 tr]
  obtain st where "diag_loop n 0 A (det, tr) = Some (?d, st @ tr)" "list_all event_in_field st"
    by auto
  then have "elim_loop n k (A, det, tr) = Some (?d, A, st @ tr)"
    by (simp add: elim_loop_done [OF nk] ll_final_field)
  with \<open>list_all event_in_field st\<close> 0(2,3) show ?case by auto
next
  case (Suc m)
  then have lt: "k < n" by simp
  from find_pivot_spec [OF Suc(3) lt less_imp_le [OF lt]] obtain pv
    where pv: "find_pivot A n k k = Some pv" "pv \<le> n" by auto
  show ?case
  proof (cases "pv = n")
    case True
    then have "elim_loop n k (A, det, tr) = Some (0, A, [] @ tr)"
      using pv by (simp add: elim_loop_unfold [OF lt])
    moreover have "in_field 0" by (simp add: in_field_def p_def)
    ultimately show ?thesis using Suc(3,4) by force
  next
    case False
    with pv(2) have pvn: "pv < n" by simp
    let ?A1 = "swapped k pv A"
    let ?det1 = "if k \<noteq> pv then (- det) mod p else det"
    from swap_rows_spec [OF Suc(5), of k pv A tr]
    obtain st1 where sw: "swap_rows k pv (A, det, tr) = (?A1, ?det1, st1 @ tr)"
      and st1: "list_all event_in_field st1" by auto
    have sq1: "square n ?A1" by (rule swapped_square [OF Suc(3) lt pvn])
    have fm1: "field_matrix ?A1" by (rule swapped_field [OF Suc(3,4) lt pvn])
    have d1: "in_field ?det1" using Suc(5) by simp
    let ?A2 = "elim_from k (Suc k) ?A1"
    from elim_rows_spec [OF lt sq1 fm1, of "Suc k" "st1 @ tr"]
    obtain st2 where rows: "elim_rows n k (Suc k) (?A1, st1 @ tr) = Some (?A2, st2 @ st1 @ tr)"
      and st2: "list_all event_in_field st2" by auto
    from Suc(2) have m: "m = n - Suc k" by simp
    have "\<exists>d A' st. elim_loop n (Suc k) (?A2, ?det1, st2 @ st1 @ tr) = Some (d, A', st @ st2 @ st1 @ tr)
       \<and> in_field d \<and> square n A' \<and> field_matrix A' \<and> list_all event_in_field st"
      by (rule Suc(1) [OF m elim_from_square [OF sq1] elim_from_field [OF fm1] d1])
    then obtain d A' st3 where
      rec: "elim_loop n (Suc k) (?A2, ?det1, st2 @ st1 @ tr) = Some (d, A', st3 @ st2 @ st1 @ tr)"
      and post: "in_field d" "square n A'" "field_matrix A'" "list_all event_in_field st3"
      by auto
    have "elim_loop n k (A, det, tr) = Some (d, A', (st3 @ st2 @ st1) @ tr)"
      using pv(1) False sw rows rec by (simp add: elim_loop_unfold [OF lt])
    moreover have "list_all event_in_field (st3 @ st2 @ st1)"
      using st1 st2 post(4) by simp
    ultimately show ?thesis using post(1-3) by blast
  qed
qed

text \<open>
  Claim C7. Started on an \<open>n\<close> by \<open>n\<close> matrix with entries in \<open>[0, p - 1]\<close>,
  \<^verbatim>\<open>modularDeterminant\<close> returns, and the value it returns, every value it assigns to an
  entry of the matrix or to \<open>det\<close> on the way (and every pivot it inverts), and every entry
  of the matrix it leaves are in \<open>[0, p - 1]\<close>.
\<close>

theorem modularDeterminant_stays_in_field:
  assumes "square n A" "field_matrix A"
  shows "\<exists>d A' tr. modularDeterminant_run A = Some (d, A', tr)
    \<and> modularDeterminant A = Some d \<and> in_field d
    \<and> square n A' \<and> field_matrix A' \<and> list_all event_in_field tr"
proof -
  have one: "in_field 1" by (simp add: in_field_def p_def)
  from elim_loop_field [OF assms one, where k = 0 and tr = "[]"] square_length [OF assms(1)]
  show ?thesis
    by (auto simp: modularDeterminant_def modularDeterminant_run_def)
qed

theorem modularDeterminant_stays_in_field_witness:
  "\<exists>d A' tr. modularDeterminant_run [[0, 2], [3, 4]] = Some (d, A', tr)
    \<and> modularDeterminant [[0, 2], [3, 4]] = Some d \<and> in_field d
    \<and> square 2 A' \<and> field_matrix A' \<and> list_all event_in_field tr"
  by (rule modularDeterminant_stays_in_field)
     (simp_all add: square_def field_matrix_def in_field_def p_def)

section \<open>The arguments of modInverse\<close>

text \<open>
  Claim C6. In every run of \<^verbatim>\<open>modularDeterminant\<close> that returns, each call of
  \<^verbatim>\<open>modInverse\<close> has a nonzero argument: no event \<open>Inverse 0\<close> is in the trace. When the
  matrix is \<open>n\<close> by \<open>n\<close> with entries in \<open>[0, p - 1]\<close>, every argument is in \<open>[1, p - 1]\<close>,
  so it is invertible modulo \<open>p\<close>.
\<close>

theorem modInverse_never_on_zero:
  assumes "modularDeterminant_run A = Some (d, A', tr)"
  shows "Inverse 0 \<notin> set tr
    \<and> (square n A \<and> field_matrix A \<longrightarrow> (\<forall>a. Inverse a \<in> set tr \<longrightarrow> 1 \<le> a \<and> a \<le> p - 1))"
proof (rule conjI)
  from assms show nz: "Inverse 0 \<notin> set tr"
    unfolding modularDeterminant_run_def by (rule elim_loop_inverse) simp
  show "square n A \<and> field_matrix A \<longrightarrow> (\<forall>a. Inverse a \<in> set tr \<longrightarrow> 1 \<le> a \<and> a \<le> p - 1)"
  proof (intro impI allI)
    fix a assume sf: "square n A \<and> field_matrix A" and a: "Inverse a \<in> set tr"
    have one: "in_field 1" by (simp add: in_field_def p_def)
    from sf have sq: "square n A" and fm: "field_matrix A" by simp_all
    from elim_loop_field [OF sq fm one, where k = 0 and tr = "[]"] assms square_length [OF sq]
    have "list_all event_in_field tr"
      by (auto simp: modularDeterminant_run_def)
    then have "\<forall>e\<in>set tr. event_in_field e" by (simp add: list_all_iff)
    from this a have "event_in_field (Inverse a)" by (rule bspec)
    then have "0 \<le> a" "a < p" by (simp_all add: in_field_def)
    moreover from nz a have "a \<noteq> 0" by auto
    ultimately show "1 \<le> a \<and> a \<le> p - 1" by simp
  qed
qed

theorem modInverse_never_on_zero_witness:
  "modularDeterminant_run [[0, 2], [3, 4]]
     = Some (1000000001, [[3, 4], [0, 2]],
         [Det 1000000001, Det 1000000004, Store 1 1 2, Store 1 0 0, Inverse 3, Det 1000000006])
   \<and> Inverse 0 \<notin> set [Det 1000000001, Det 1000000004, Store 1 1 2, Store 1 0 0, Inverse 3,
         Det 1000000006]
   \<and> square 2 [[0, 2], [3, 4 :: int]] \<and> field_matrix [[0, 2], [3, 4]]
   \<and> 1 \<le> (3 :: int) \<and> (3 :: int) \<le> p - 1"
proof -
  let ?tr = "[Det 1000000001, Det 1000000004, Store 1 1 2, Store 1 0 0, Inverse 3, Det 1000000006]"
  have run: "modularDeterminant_run [[0, 2], [3, 4]] = Some (1000000001, [[3, 4], [0, 2]], ?tr)"
    by code_simp
  have sf: "square 2 [[0, 2], [3, 4 :: int]] \<and> field_matrix [[0, 2], [3, 4]]"
    by (simp add: square_def field_matrix_def in_field_def p_def)
  have mem: "Inverse 3 \<in> set ?tr" by simp
  note inst = modInverse_never_on_zero [OF run, of 2]
  from inst have "Inverse 0 \<notin> set ?tr" by (rule conjunct1)
  moreover from inst sf mem have "1 \<le> (3 :: int) \<and> (3 :: int) \<le> p - 1" by blast
  ultimately show ?thesis using run sf by simp
qed

section \<open>The determinant\<close>

subsection \<open>Minors and row updates\<close>

lemma minor_apply: "minor i A r c = A (if r < i then r else Suc r) (Suc c)"
  by (simp add: minor_def)

lemma minor_upd_same: "minor i (A(i := w)) = minor i A"
  by (auto simp: minor_def fun_eq_iff)

lemma minor_upd_other:
  "i \<noteq> i' \<Longrightarrow>
   minor i' (A(i := w)) = (minor i' A)((if i < i' then i else i - 1) := (\<lambda>c. w (Suc c)))"
  by (auto simp: minor_def fun_eq_iff)

lemma determinant_cong:
  "(\<And>i j. i < n \<Longrightarrow> j < n \<Longrightarrow> A i j = B i j) \<Longrightarrow> determinant n A = determinant n B"
proof (induction n arbitrary: A B)
  case 0
  show ?case by simp
next
  case (Suc n)
  have "determinant n (minor i A) = determinant n (minor i B)" if "i \<le> n" for i
    using that by (intro Suc.IH) (simp add: minor_apply Suc.prems)
  then show ?case by (simp add: Suc.prems)
qed

lemma determinant_mod_cong:
  fixes m :: int
  shows "(\<And>i j. i < n \<Longrightarrow> j < n \<Longrightarrow> A i j mod m = B i j mod m) \<Longrightarrow>
    determinant n A mod m = determinant n B mod m"
proof (induction n arbitrary: A B)
  case 0
  show ?case by simp
next
  case (Suc n)
  have minors: "determinant n (minor i A) mod m = determinant n (minor i B) mod m" if "i \<le> n" for i
    using that by (intro Suc.IH) (simp add: minor_apply Suc.prems)
  have "((- 1) ^ i * A i 0 * determinant n (minor i A)) mod m
      = ((- 1) ^ i * B i 0 * determinant n (minor i B)) mod m" if "i \<le> n" for i
  proof -
    have "A i 0 mod m = B i 0 mod m" using that by (simp add: Suc.prems)
    then have "((- 1) ^ i * A i 0) mod m = ((- 1) ^ i * B i 0) mod m"
      by (rule mod_mult_cong [OF refl])
    then show ?thesis by (rule mod_mult_cong [OF _ minors [OF that]])
  qed
  then have "(\<Sum>i\<le>n. ((- 1) ^ i * A i 0 * determinant n (minor i A)) mod m) mod m
      = (\<Sum>i\<le>n. ((- 1) ^ i * B i 0 * determinant n (minor i B)) mod m) mod m"
    by simp
  then show ?case by (simp add: mod_sum_eq)
qed

subsection \<open>The determinant is linear in each row\<close>

lemma determinant_linear:
  "i < n \<Longrightarrow>
   determinant n (A(i := (\<lambda>c. a * u c + b * v c)))
     = a * determinant n (A(i := u)) + b * determinant n (A(i := v))"
proof (induction n arbitrary: A i u v)
  case 0
  then show ?case by simp
next
  case (Suc n)
  let ?w = "\<lambda>c. a * u c + b * v c"
  let ?T = "\<lambda>x i'. (- 1) ^ i' * (A(i := x)) i' 0 * determinant n (minor i' (A(i := x)))"
  have tm: "?T ?w i' = a * ?T u i' + b * ?T v i'" if "i' \<le> n" for i'
  proof (cases "i' = i")
    case True
    then show ?thesis by (simp add: minor_upd_same algebra_simps)
  next
    case False
    let ?i = "if i < i' then i else i - 1"
    from False that Suc.prems have "?i < n" by auto
    then have "determinant n ((minor i' A)(?i := (\<lambda>c. a * u (Suc c) + b * v (Suc c))))
        = a * determinant n ((minor i' A)(?i := (\<lambda>c. u (Suc c))))
          + b * determinant n ((minor i' A)(?i := (\<lambda>c. v (Suc c))))"
      by (rule Suc.IH)
    with False show ?thesis
      by (simp add: minor_upd_other [of i i'] algebra_simps)
  qed
  have expand: "determinant (Suc n) (A(i := x)) = (\<Sum>i'\<le>n. ?T x i')" for x
    by (simp only: determinant.simps)
  have "(\<Sum>i'\<le>n. ?T ?w i') = (\<Sum>i'\<le>n. a * ?T u i' + b * ?T v i')"
    by (rule sum.cong [OF refl]) (simp only: tm atMost_iff)
  also have "\<dots> = a * (\<Sum>i'\<le>n. ?T u i') + b * (\<Sum>i'\<le>n. ?T v i')"
    by (simp only: sum.distrib sum_distrib_left)
  finally show ?case by (simp only: expand)
qed

lemma determinant_add:
  "i < n \<Longrightarrow> determinant n (A(i := (\<lambda>c. u c + v c)))
     = determinant n (A(i := u)) + determinant n (A(i := v))"
  using determinant_linear [of i n A 1 u 1 v] by simp

subsection \<open>Equal rows\<close>

lemma determinant_adjacent_rows:
  "Suc i < n \<Longrightarrow> A i = A (Suc i) \<Longrightarrow> determinant n A = 0"
proof (induction n arbitrary: A i)
  case 0
  then show ?case by simp
next
  case (Suc n)
  let ?T = "\<lambda>i'. (- 1) ^ i' * A i' 0 * determinant n (minor i' A)"
  have zero: "?T i' = 0" if "i' \<le> n" "i' \<noteq> i" "i' \<noteq> Suc i" for i'
  proof -
    let ?i = "if i < i' then i else i - 1"
    from that Suc.prems have "Suc ?i < n" by auto
    moreover from that Suc.prems have "minor i' A ?i = minor i' A (Suc ?i)"
      by (auto simp: minor_def fun_eq_iff)
    ultimately have "determinant n (minor i' A) = 0" by (rule Suc.IH)
    then show ?thesis by simp
  qed
  have same: "minor i A = minor (Suc i) A"
    using Suc.prems(2) by (auto simp: minor_def fun_eq_iff less_Suc_eq)
  have "determinant (Suc n) A = (\<Sum>i'\<le>n. ?T i')" by simp
  also have "\<dots> = (\<Sum>i'\<in>{i, Suc i}. ?T i')"
    using Suc.prems(1) by (intro sum.mono_neutral_right) (auto simp: zero)
  also have "\<dots> = 0"
    using Suc.prems(2) by (simp add: same)
  finally show ?case .
qed

lemma determinant_swap_adjacent:
  assumes "Suc i < n"
  shows "determinant n (A(i := A (Suc i), Suc i := A i)) = - determinant n A"
proof -
  let ?x = "A i" and ?y = "A (Suc i)"
  let ?s = "\<lambda>c. ?x c + ?y c"
  let ?D = "\<lambda>z w. determinant n (A(i := z, Suc i := w))"
  from assms have i: "i < n" by simp
  have row_i: "?D (\<lambda>c. u c + v c) w = ?D u w + ?D v w" for u v w
    using determinant_add [OF i, of "A(Suc i := w)" u v]
    by (simp add: fun_upd_twist [of i "Suc i"])
  have row_Suc: "?D z (\<lambda>c. u c + v c) = ?D z u + ?D z v" for z u v
    by (rule determinant_add [OF assms])
  have eq0: "?D z z = 0" for z
    by (rule determinant_adjacent_rows [OF assms]) simp
  have 1: "?D ?s ?s = ?D ?x ?s + ?D ?y ?s" by (rule row_i)
  have 2: "?D ?x ?s = ?D ?x ?x + ?D ?x ?y" by (rule row_Suc)
  have 3: "?D ?y ?s = ?D ?y ?x + ?D ?y ?y" by (rule row_Suc)
  from eq0 [of ?s] eq0 [of ?x] eq0 [of ?y] 1 2 3
  have "?D ?x ?y + ?D ?y ?x = 0" by linarith
  moreover have "A(i := ?x, Suc i := ?y) = A" by (simp add: fun_eq_iff)
  ultimately show ?thesis by simp
qed

lemma determinant_equal_rows:
  "i < j \<Longrightarrow> j < n \<Longrightarrow> A i = A j \<Longrightarrow> determinant n A = 0"
proof (induction "j - i" arbitrary: j A)
  case 0
  then show ?case by simp
next
  case (Suc d)
  show ?case
  proof (cases "j = Suc i")
    case True
    with Suc.prems show ?thesis by (intro determinant_adjacent_rows [of i]) simp_all
  next
    case False
    with Suc.prems(1) obtain j' where j': "j = Suc j'" "i < j'"
      by (cases j) auto
    let ?A = "A(j' := A (Suc j'), Suc j' := A j')"
    have "determinant n ?A = - determinant n A"
      using Suc.prems(2) j'(1) by (intro determinant_swap_adjacent) simp
    moreover have "determinant n ?A = 0"
    proof (rule Suc.hyps(1) [of j'])
      show "d = j' - i" using Suc.hyps(2) j' by simp
      show "i < j'" by (rule j'(2))
      show "j' < n" using Suc.prems(2) j'(1) by simp
      show "?A i = ?A j'" using j' Suc.prems(3) by simp
    qed
    ultimately show ?thesis by simp
  qed
qed

lemma determinant_two_rows:
  assumes "i \<noteq> j" "i < n" "j < n" "A i = A j"
  shows "determinant n A = 0"
proof (cases "i < j")
  case True
  then show ?thesis using assms by (intro determinant_equal_rows [of i j]) simp_all
next
  case False
  with assms(1) have "j < i" by simp
  then show ?thesis using assms by (intro determinant_equal_rows [of j i]) simp_all
qed

subsection \<open>Row operations\<close>

lemma determinant_swap:
  assumes "i \<noteq> j" "i < n" "j < n"
  shows "determinant n (A(i := A j, j := A i)) = - determinant n A"
proof -
  let ?x = "A i" and ?y = "A j"
  let ?s = "\<lambda>c. ?x c + ?y c"
  let ?D = "\<lambda>z w. determinant n (A(i := z, j := w))"
  have row_i: "?D (\<lambda>c. u c + v c) w = ?D u w + ?D v w" for u v w
    using determinant_add [OF assms(2), of "A(j := w)" u v] assms(1)
    by (simp add: fun_upd_twist [of i j])
  have row_j: "?D z (\<lambda>c. u c + v c) = ?D z u + ?D z v" for z u v
    by (rule determinant_add [OF assms(3)])
  have eq0: "?D z z = 0" for z
    by (rule determinant_two_rows [OF assms(1-3)]) (use assms(1) in simp)
  have 1: "?D ?s ?s = ?D ?x ?s + ?D ?y ?s" by (rule row_i)
  have 2: "?D ?x ?s = ?D ?x ?x + ?D ?x ?y" by (rule row_j)
  have 3: "?D ?y ?s = ?D ?y ?x + ?D ?y ?y" by (rule row_j)
  from eq0 [of ?s] eq0 [of ?x] eq0 [of ?y] 1 2 3
  have "?D ?x ?y + ?D ?y ?x = 0" by linarith
  moreover have "A(i := ?x, j := ?y) = A" by (simp add: fun_eq_iff)
  ultimately show ?thesis by simp
qed

lemma determinant_add_multiple:
  assumes "i \<noteq> k" "i < n" "k < n"
  shows "determinant n (A(i := (\<lambda>c. A i c + f * A k c))) = determinant n A"
proof -
  have "determinant n (A(i := (\<lambda>c. 1 * A i c + f * A k c)))
      = 1 * determinant n (A(i := A i)) + f * determinant n (A(i := A k))"
    by (rule determinant_linear [OF assms(2)])
  moreover have "determinant n (A(i := A k)) = 0"
    by (rule determinant_two_rows [OF assms]) (use assms(1) in simp)
  ultimately show ?thesis by simp
qed

lemma determinant_add_multiples:
  assumes "k < n"
  shows "m \<le> n \<Longrightarrow>
    determinant n (\<lambda>r. if k < r \<and> r < m then (\<lambda>c. A r c + g r * A k c) else A r)
      = determinant n A"
proof (induction m)
  case 0
  show ?case by simp
next
  case (Suc m)
  let ?B = "\<lambda>m r. if k < r \<and> r < m then (\<lambda>c. A r c + g r * A k c) else A r"
  show ?case
  proof (cases "k < m")
    case False
    then have "?B (Suc m) = A" by (auto simp: fun_eq_iff)
    then show ?thesis by simp
  next
    case True
    then have "?B (Suc m) = (?B m)(m := (\<lambda>c. ?B m m c + g m * ?B m k c))"
      by (auto simp: fun_eq_iff less_Suc_eq)
    moreover have "determinant n ((?B m)(m := (\<lambda>c. ?B m m c + g m * ?B m k c)))
        = determinant n (?B m)"
      using True Suc.prems assms by (intro determinant_add_multiple) simp_all
    moreover have "determinant n (?B m) = determinant n A"
      using Suc.prems by (intro Suc.IH) simp
    ultimately show ?thesis by simp
  qed
qed

subsection \<open>Matrices in echelon form\<close>

lemma determinant_first_column:
  assumes "\<And>i. 0 < i \<Longrightarrow> i \<le> n \<Longrightarrow> A i 0 = 0"
  shows "determinant (Suc n) A = A 0 0 * determinant n (minor 0 A)"
proof -
  let ?T = "\<lambda>i. (- 1) ^ i * A i 0 * determinant n (minor i A)"
  have "determinant (Suc n) A = (\<Sum>i\<le>n. ?T i)" by simp
  also have "\<dots> = (\<Sum>i\<in>{0}. ?T i)"
    by (intro sum.mono_neutral_right) (auto simp: assms)
  finally show ?thesis by simp
qed

lemma determinant_zero_column:
  "0 < n \<Longrightarrow> (\<And>i. i < n \<Longrightarrow> A i 0 = 0) \<Longrightarrow> determinant n A = 0"
  by (cases n) simp_all

lemma echelon_minor: "echelon (Suc k) (Suc n) A \<Longrightarrow> echelon k n (minor 0 A)"
  by (simp add: echelon_def minor_def)

lemma echelon_first_column: "echelon (Suc k) (Suc n) A \<Longrightarrow> 0 < i \<Longrightarrow> i \<le> n \<Longrightarrow> A i 0 = 0"
  by (simp add: echelon_def)

lemma determinant_echelon_zero:
  "echelon k n A \<Longrightarrow> k < n \<Longrightarrow> (\<And>i. k \<le> i \<Longrightarrow> i < n \<Longrightarrow> A i k = 0) \<Longrightarrow>
   determinant n A = 0"
proof (induction k arbitrary: n A)
  case 0
  then show ?case by (intro determinant_zero_column) simp_all
next
  case (Suc k)
  from Suc.prems(2) obtain n' where n: "n = Suc n'" by (cases n) auto
  have "determinant n' (minor 0 A) = 0"
  proof (rule Suc.IH)
    show "echelon k n' (minor 0 A)" using Suc.prems(1) n by (simp add: echelon_minor)
    show "k < n'" using Suc.prems(2) n by simp
    show "minor 0 A i k = 0" if "k \<le> i" "i < n'" for i
      using that n Suc.prems(3) [of "Suc i"] by (simp add: minor_def)
  qed
  moreover have "determinant (Suc n') A = A 0 0 * determinant n' (minor 0 A)"
    using Suc.prems(1) n by (intro determinant_first_column) (simp add: echelon_def)
  ultimately show ?case unfolding n by simp
qed

lemma determinant_triangular:
  "echelon n n A \<Longrightarrow> determinant n A = (\<Prod>i<n. A i i)"
proof (induction n arbitrary: A)
  case 0
  show ?case by simp
next
  case (Suc n)
  have "determinant (Suc n) A = A 0 0 * determinant n (minor 0 A)"
    using Suc.prems by (intro determinant_first_column) (simp add: echelon_def)
  also have "determinant n (minor 0 A) = (\<Prod>i<n. minor 0 A i i)"
    using Suc.prems by (intro Suc.IH echelon_minor)
  also have "A 0 0 * (\<Prod>i<n. minor 0 A i i) = (\<Prod>i<Suc n. A i i)"
    by (simp add: prod.lessThan_Suc_shift minor_def del: prod.lessThan_Suc)
  finally show ?case .
qed

subsection \<open>A nonzero determinant selects one nonzero entry in every row and column\<close>

lemma determinant_nonzero_columns:
  "determinant n A \<noteq> 0 \<Longrightarrow> \<exists>h. bij_betw h {..<n} {..<n} \<and> (\<forall>j<n. A (h j) j \<noteq> 0)"
proof (induction n arbitrary: A)
  case 0
  have "bij_betw id {..<0::nat} {..<0}" by simp
  then show ?case by blast
next
  case (Suc n)
  let ?T = "\<lambda>i. (- 1) ^ i * A i 0 * determinant n (minor i A)"
  from Suc.prems have "(\<Sum>i\<le>n. ?T i) \<noteq> 0" by simp
  then obtain i where i: "i \<le> n" "?T i \<noteq> 0"
    by (metis (no_types, lifting) atMost_iff sum.neutral)
  then have a: "A i 0 \<noteq> 0" and d: "determinant n (minor i A) \<noteq> 0" by auto
  from Suc.IH [OF d] obtain g where g: "bij_betw g {..<n} {..<n}"
    and gnz: "\<And>j. j < n \<Longrightarrow> minor i A (g j) j \<noteq> 0" by auto
  let ?skip = "\<lambda>r. if r < i then r else Suc r"
  define h where "h j = (case j of 0 \<Rightarrow> i | Suc j' \<Rightarrow> ?skip (g j'))" for j
  have g_lt: "g j < n" if "j < n" for j
    using g that by (auto simp: bij_betw_def)
  have g_inj: "g j = g j' \<Longrightarrow> j = j'" if "j < n" "j' < n" for j j'
    using g that by (auto simp: bij_betw_def inj_on_def)
  have inj: "inj_on h {..<Suc n}"
  proof (rule inj_onI)
    fix x y assume xy: "x \<in> {..<Suc n}" "y \<in> {..<Suc n}" "h x = h y"
    show "x = y"
    proof (cases x)
      case 0
      with xy(3) show ?thesis by (cases y) (auto simp: h_def split: if_splits)
    next
      case (Suc x')
      show ?thesis
      proof (cases y)
        case 0
        with Suc xy(3) show ?thesis by (auto simp: h_def split: if_splits)
      next
        case (Suc y')
        with \<open>x = Suc x'\<close> xy(3) have "g x' = g y'"
          by (auto simp: h_def split: if_splits)
        with xy(1,2) Suc \<open>x = Suc x'\<close> show ?thesis by (auto dest: g_inj [rotated 2])
      qed
    qed
  qed
  have sub: "h ` {..<Suc n} \<subseteq> {..<Suc n}"
  proof
    fix y assume "y \<in> h ` {..<Suc n}"
    then obtain x where x: "x < Suc n" "y = h x" by auto
    show "y \<in> {..<Suc n}"
    proof (cases x)
      case 0
      with x i(1) show ?thesis by (simp add: h_def)
    next
      case (Suc x')
      with x g_lt [of x'] show ?thesis by (auto simp: h_def)
    qed
  qed
  have "h ` {..<Suc n} = {..<Suc n}"
    by (rule endo_inj_surj [OF _ sub inj]) simp
  with inj have "bij_betw h {..<Suc n} {..<Suc n}" by (simp add: bij_betw_def)
  moreover have "A (h j) j \<noteq> 0" if "j < Suc n" for j
  proof (cases j)
    case 0
    with a show ?thesis by (simp add: h_def)
  next
    case (Suc j')
    with that gnz [of j'] show ?thesis by (simp add: h_def minor_def)
  qed
  ultimately show ?case by blast
qed

lemma determinant_nonzero_rows:
  assumes "determinant n A \<noteq> 0"
  shows "\<exists>f. bij_betw f {..<n} {..<n} \<and> (\<forall>i<n. A i (f i) \<noteq> 0)"
proof -
  from determinant_nonzero_columns [OF assms] obtain h
    where h: "bij_betw h {..<n} {..<n}" and nz: "\<And>j. j < n \<Longrightarrow> A (h j) j \<noteq> 0" by auto
  let ?f = "the_inv_into {..<n} h"
  have f: "bij_betw ?f {..<n} {..<n}" by (rule bij_betw_the_inv_into [OF h])
  have "A i (?f i) \<noteq> 0" if "i < n" for i
  proof -
    from that have i: "i \<in> {..<n}" by simp
    with f have "?f i < n" by (auto simp: bij_betw_def)
    from nz [OF this] f_the_inv_into_f_bij_betw [OF h, of i] i show ?thesis by simp
  qed
  with f show ?thesis by blast
qed

section \<open>The modulus is prime\<close>

lemma prime_coprime:
  assumes "is_prime q" "\<not> q dvd a" shows "coprime q a"
proof (rule coprimeI)
  fix d assume d: "d dvd q" "d dvd a"
  with assms(1) have "d = 1 \<or> d = q" by (simp add: is_prime_def)
  with d(2) assms(2) show "is_unit d" by auto
qed

lemma prime_divisor: "1 < n \<Longrightarrow> \<exists>q. is_prime q \<and> q dvd n"
proof (induction n rule: less_induct)
  case (less n)
  show ?case
  proof (cases "is_prime n")
    case True
    then show ?thesis by auto
  next
    case False
    with less.prems obtain d where d: "d dvd n" "d \<noteq> 1" "d \<noteq> n"
      by (auto simp: is_prime_def)
    from d(1) less.prems have "d \<le> n" by (intro dvd_imp_le) simp_all
    with d(3) have dn: "d < n" by simp
    from d(1) less.prems have "d \<noteq> 0" by (intro notI) simp
    with d(2) have d1: "1 < d" by simp
    note dn d1
    from less.IH [OF dn d1] obtain q where "is_prime q" "q dvd d" by auto
    with d(1) show ?thesis by (meson dvd_trans)
  qed
qed

lemma small_prime_divisor:
  assumes "1 < n" "\<not> is_prime n"
  shows "\<exists>q. is_prime q \<and> q dvd n \<and> q * q \<le> n"
proof -
  from assms obtain d where d: "d dvd n" "d \<noteq> 1" "d \<noteq> n"
    by (auto simp: is_prime_def)
  then obtain e where e: "n = d * e" by (auto simp: dvd_def)
  with assms(1) d have "1 < d" "1 < e"
    by (cases d; cases e; auto)+
  define c where "c = min d e"
  have c: "1 < c" "c dvd n" "c * c \<le> n"
    using \<open>1 < d\<close> \<open>1 < e\<close> e
    by (auto simp: c_def min_def mult_le_mono)
  from prime_divisor [OF c(1)] obtain q where q: "is_prime q" "q dvd c" by auto
  have "q \<le> c" by (rule dvd_imp_le [OF q(2)]) (use c(1) in simp)
  then have "q * q \<le> c * c" by (simp add: mult_le_mono)
  with c(3) have "q * q \<le> n" by simp
  moreover from q(2) c(2) have "q dvd n" by (rule dvd_trans)
  ultimately show ?thesis using q(1) by auto
qed

lemma prime_not_dvd_less: "is_prime q \<Longrightarrow> 0 < x \<Longrightarrow> x < q \<Longrightarrow> \<not> q dvd x"
  by (auto dest: dvd_imp_le)

lemma fermat_nat:
  assumes q: "is_prime q" and a: "\<not> q dvd a"
  shows "a ^ (q - 1) mod q = 1"
proof -
  from q have q1: "1 < q" by (simp add: is_prime_def)
  let ?S = "{1..<q}"
  let ?f = "\<lambda>x. (a * x) mod q"
  have cop_a: "coprime q a" by (rule prime_coprime [OF q a])
  have cop_x: "coprime q x" if "x \<in> ?S" for x
    using that by (intro prime_coprime [OF q] prime_not_dvd_less [OF q]) simp_all
  have nz: "?f x \<noteq> 0" if "x \<in> ?S" for x
  proof
    assume "?f x = 0"
    then have "q dvd a * x" by (simp add: dvd_eq_mod_eq_0)
    with cop_a have "q dvd x" by (simp add: coprime_dvd_mult_right_iff)
    with prime_not_dvd_less [OF q, of x] that show False by simp
  qed
  have into: "?f ` ?S \<subseteq> ?S"
  proof
    fix y assume "y \<in> ?f ` ?S"
    then obtain x where x: "x \<in> ?S" "y = ?f x" by auto
    with nz [OF x(1)] q1 show "y \<in> ?S" by (simp add: Suc_leI)
  qed
  have inj: "inj_on ?f ?S"
  proof (rule inj_onI)
    fix x y assume xy: "x \<in> ?S" "y \<in> ?S" "?f x = ?f y"
    have aux: "u = v" if "u \<le> v" "v < q" "?f u = ?f v" for u v
    proof -
      from that(1) have "a * u \<le> a * v" by simp
      from mod_eq_dvd_iff_nat [OF this, of q] that(3) have "q dvd a * v - a * u" by simp
      then have "q dvd a * (v - u)" by (simp add: diff_mult_distrib2)
      with cop_a have "q dvd v - u" by (simp add: coprime_dvd_mult_right_iff)
      moreover from that(2) have "v - u < q" by simp
      ultimately have "v - u = 0" by (meson dvd_imp_le not_le zero_less_iff_neq_zero)
      with that(1) show ?thesis by simp
    qed
    show "x = y"
    proof (cases "x \<le> y")
      case True
      with xy aux [of x y] show ?thesis by simp
    next
      case False
      with xy aux [of y x] show ?thesis by simp
    qed
  qed
  have img: "?f ` ?S = ?S" by (rule endo_inj_surj [OF _ into inj]) simp
  let ?F = "\<Prod>?S"
  have "(\<Prod>x\<in>?S. ?f x) = (\<Prod>x\<in>?f ` ?S. x)"
    by (rule prod.reindex_cong [OF inj refl, symmetric]) simp
  then have "(\<Prod>x\<in>?S. ?f x) = ?F" by (simp only: img)
  moreover have "(\<Prod>x\<in>?S. ?f x) mod q = (\<Prod>x\<in>?S. a * x) mod q"
    by (rule mod_prod_eq)
  moreover have "(\<Prod>x\<in>?S. a * x) = a ^ (q - 1) * ?F"
    by (simp add: prod.distrib)
  ultimately have eq: "(a ^ (q - 1) * ?F) mod q = ?F mod q" by simp
  have copF: "coprime q ?F"
    by (rule prod_coprime_right) (use cop_x in blast)
  have a0: "a \<noteq> 0" using a by (intro notI) simp
  then have ge: "1 \<le> a ^ (q - 1)" by simp
  from ge have "?F \<le> a ^ (q - 1) * ?F" by simp
  from mod_eq_dvd_iff_nat [OF this, of q] eq have "q dvd a ^ (q - 1) * ?F - ?F" by simp
  then have "q dvd (a ^ (q - 1) - 1) * ?F" by (simp add: diff_mult_distrib)
  with copF have "q dvd a ^ (q - 1) - 1" by (simp add: coprime_dvd_mult_left_iff)
  with mod_eq_dvd_iff_nat [OF ge, of q] have "a ^ (q - 1) mod q = 1 mod q" by simp
  with q1 show ?thesis by simp
qed

lemma mpow_correct: "0 \<le> e \<Longrightarrow> mpow m b e = b ^ nat e mod m"
proof (induction "nat e" arbitrary: b e rule: less_induct)
  case less
  show ?case
  proof (cases "e = 0")
    case True
    then show ?thesis by (subst mpow.simps) simp
  next
    case False
    with less.prems have pos: "0 < e" by simp
    then have h: "0 \<le> e div 2" "nat (e div 2) < nat e" by simp_all
    have IH: "mpow m ((b * b) mod m) (e div 2) = ((b * b) mod m) ^ nat (e div 2) mod m"
      by (rule less.hyps [OF h(2) h(1)])
    have sq: "((b * b) mod m) ^ nat (e div 2) mod m = b ^ (2 * nat (e div 2)) mod m"
      by (simp add: power_mod power_mult power2_eq_square)
    show ?thesis
    proof (cases "e mod 2 = 0")
      case True
      then have "e = 2 * (e div 2)" by presburger
      with h(1) have e: "nat e = 2 * nat (e div 2)" by linarith
      have "mpow m b e = mpow m ((b * b) mod m) (e div 2)"
        using pos True by (subst mpow.simps) simp
      with IH sq e show ?thesis by simp
    next
      case False
      then have "e = 2 * (e div 2) + 1" by presburger
      with h(1) have e: "nat e = Suc (2 * nat (e div 2))" by linarith
      have "mpow m b e = (b * mpow m ((b * b) mod m) (e div 2)) mod m"
        using pos False by (subst mpow.simps) simp
      also have "\<dots> = (b * (b ^ (2 * nat (e div 2)) mod m)) mod m"
        by (simp only: IH sq)
      also have "\<dots> = (b * b ^ (2 * nat (e div 2))) mod m"
        by (rule mod_mult_right_eq)
      finally show ?thesis by (simp add: e)
    qed
  qed
qed

lemma mpow_nat: "mpow (int N) (int a) (int e) = int (a ^ e mod N)"
  by (simp add: mpow_correct zmod_int)

lemma nodiv_correct:
  "nodiv n lo hi \<Longrightarrow> lo \<le> d \<Longrightarrow> d \<le> hi \<Longrightarrow> \<not> d dvd n"
proof (induction n lo hi rule: nodiv.induct)
  case (1 n lo hi)
  from 1(3,4) have le: "\<not> hi < lo" by simp
  with 1(2) have here: "n mod lo \<noteq> 0" and rest: "nodiv n (lo + 1) hi"
    by (subst (asm) nodiv.simps, simp)+
  show ?case
  proof (cases "d = lo")
    case True
    with here show ?thesis by (simp add: dvd_eq_mod_eq_0)
  next
    case False
    with 1(3) have "lo + 1 \<le> d" by simp
    from "1.IH" [OF le rest this 1(4)] show ?thesis .
  qed
qed

lemma trial_division:
  assumes "1 < n" and "nodiv (int n) 2 (int h)" and "n < (h + 1) * (h + 1)"
  shows "is_prime n"
proof (rule ccontr)
  assume "\<not> is_prime n"
  from small_prime_divisor [OF assms(1) this] obtain q
    where q: "is_prime q" "q dvd n" "q * q \<le> n" by auto
  from q(1) have "2 \<le> int q" by (simp add: is_prime_def)
  moreover have "q \<le> h"
  proof (rule ccontr)
    assume "\<not> q \<le> h"
    then have "h + 1 \<le> q" by simp
    then have "(h + 1) * (h + 1) \<le> q * q" by (intro mult_le_mono)
    with q(3) assms(3) show False by simp
  qed
  ultimately have "\<not> int q dvd int n"
    by (intro nodiv_correct [OF assms(2)]) simp_all
  with q(2) show False by simp
qed

lemma pocklington:
  fixes N q m a c :: nat
  assumes N: "1 < N" and q: "is_prime q" and fac: "N - 1 = q * m"
    and one: "mpow (int N) (int a) (int (N - 1)) = 1"
    and c: "mpow (int N) (int a) (int m) = int c" "1 \<le> c" "coprime (int c - 1) (int N)"
    and big: "N < (q + 1) * (q + 1)"
  shows "is_prime N"
proof (rule ccontr)
  assume "\<not> is_prime N"
  from small_prime_divisor [OF N this] obtain r
    where r: "is_prime r" "r dvd N" "r * r \<le> N" by auto
  from r(1) have r1: "1 < r" by (simp add: is_prime_def)
  from one have "int (a ^ (N - 1) mod N) = int 1"
    by (simp only: mpow_nat of_nat_1)
  then have one': "a ^ (N - 1) mod N = 1"
    by (simp only: of_nat_eq_iff)
  from c(1) have "int (a ^ m mod N) = int c"
    by (simp only: mpow_nat)
  then have c': "a ^ m mod N = c"
    by (simp only: of_nat_eq_iff)
  from c(2,3) have cop: "coprime (c - 1) N"
    by (simp add: of_nat_diff flip: coprime_int_iff)
  have mod_r: "x mod N mod r = x mod r" for x
    by (rule mod_mod_cancel [OF r(2)])
  have ar: "a ^ (N - 1) mod r = 1"
    using mod_r [of "a ^ (N - 1)"] one' r1 by simp
  have nd: "\<not> r dvd a"
  proof
    assume "r dvd a"
    moreover from N have "0 < N - 1" by simp
    ultimately have "r dvd a ^ (N - 1)" by (simp add: dvd_power_iff_le dvd_trans [OF _ dvd_power])
    with ar show False by (simp add: dvd_eq_mod_eq_0)
  qed
  have fr: "a ^ (r - 1) mod r = 1" by (rule fermat_nat [OF r(1) nd])
  define g where "g = gcd (N - 1) (r - 1)"
  from N have "N - 1 \<noteq> 0" by simp
  from bezout_nat [OF this, of "r - 1"] obtain x y
    where xy: "(N - 1) * x = (r - 1) * y + g" by (auto simp: g_def)
  have "a ^ ((N - 1) * x) mod r = (a ^ (N - 1) mod r) ^ x mod r"
    by (simp add: power_mult power_mod)
  then have lhs: "a ^ ((N - 1) * x) mod r = 1" using r1 ar by simp
  have "a ^ ((r - 1) * y + g) mod r = ((a ^ (r - 1) mod r) ^ y mod r * (a ^ g mod r)) mod r"
    by (simp add: power_add power_mult power_mod mod_mult_eq)
  then have "a ^ ((r - 1) * y + g) mod r = a ^ g mod r" using r1 fr by simp
  with lhs xy have ag: "a ^ g mod r = 1" by simp
  have qd: "q dvd r - 1"
  proof (rule ccontr)
    assume "\<not> q dvd r - 1"
    then have "coprime q (r - 1)" by (rule prime_coprime [OF q])
    moreover have "g dvd r - 1" by (simp add: g_def)
    ultimately have "coprime q g" by (meson coprime_divisors dvd_refl)
    then have "coprime g q" by (simp add: coprime_commute)
    moreover have "g dvd q * m" unfolding fac [symmetric] by (simp add: g_def)
    ultimately have "g dvd m" by (simp add: coprime_dvd_mult_right_iff)
    then obtain t where t: "m = g * t" by (auto simp: dvd_def)
    have "a ^ m mod r = (a ^ g mod r) ^ t mod r"
      by (simp add: t power_mult power_mod)
    then have "a ^ m mod r = 1" using r1 ag by simp
    with mod_r [of "a ^ m"] c' have "c mod r = 1 mod r" using r1 by simp
    with mod_eq_dvd_iff_nat [OF c(2), of r] have "r dvd c - 1" by simp
    with r(2) cop have "is_unit r" by (meson coprime_common_divisor)
    with r1 show False by simp
  qed
  from r1 have "0 < r - 1" by simp
  with qd have "q \<le> r - 1" by (rule dvd_imp_le)
  with r1 have "q + 1 \<le> r" by simp
  then have "(q + 1) * (q + 1) \<le> r * r" by (intro mult_le_mono)
  with r(3) big show False by simp
qed

lemma prime_148721: "is_prime 148721"
proof (rule trial_division [where h = 385])
  have "nodiv 148721 2 385" by code_simp
  then show "nodiv (int 148721) 2 (int 385)" by simp
qed simp_all

lemma prime_500000003: "is_prime 500000003"
proof (rule pocklington [where q = 148721 and m = 3362 and a = 2 and c = 233858057])
  have "mpow 500000003 2 500000002 = 1" by code_simp
  then show "mpow (int 500000003) (int 2) (int (500000003 - 1)) = 1" by simp
  have "mpow 500000003 2 3362 = 233858057" by code_simp
  then show "mpow (int 500000003) (int 2) (int 3362) = int 233858057" by simp
  have "coprime (233858056 :: int) 500000003" by code_simp
  then show "coprime (int 233858057 - 1) (int 500000003)" by simp
qed (simp_all add: prime_148721)

lemma prime_1000000007: "is_prime 1000000007"
proof (rule pocklington [where q = 500000003 and m = 2 and a = 5 and c = 25])
  have "mpow 1000000007 5 1000000006 = 1" by code_simp
  then show "mpow (int 1000000007) (int 5) (int (1000000007 - 1)) = 1" by simp
  have "mpow 1000000007 5 2 = 25" by code_simp
  then show "mpow (int 1000000007) (int 5) (int 2) = int 25" by simp
  have "coprime (24 :: int) 1000000007" by code_simp
  then show "coprime (int 25 - 1) (int 1000000007)" by simp
qed (simp_all add: prime_500000003)

section \<open>modularDeterminant computes the determinant\<close>

lemma field_inverse:
  assumes "in_field a" "a \<noteq> 0"
  shows "(a * modInverse a) mod p = 1"
proof -
  let ?q = "1000000007 :: nat"
  let ?x = "nat a"
  from assms have x: "0 < ?x" "?x < ?q" "int ?x = a"
    by (simp_all add: in_field_def p_def nat_less_iff)
  have "\<not> ?q dvd ?x"
    by (rule prime_not_dvd_less [OF prime_1000000007 x(1,2)])
  from fermat_nat [OF prime_1000000007 this]
  have "int (?x ^ (?q - 1) mod ?q) = 1" by simp
  then have f: "a ^ 1000000006 mod p = 1"
    using assms(1) by (simp add: zmod_int p_def in_field_def)
  have "(a * modInverse a) mod p = (a * a ^ nat (p - 2)) mod p"
    by (simp add: modInverse_field [OF assms(1)] mod_mult_right_eq)
  also have "a * a ^ nat (p - 2) = a ^ Suc (nat (p - 2))" by simp
  also have "Suc (nat (p - 2)) = 1000000006" by (simp add: p_def)
  finally show ?thesis by (simp only: f)
qed

lemma fm_swapped:
  assumes "k < length A" "pv < length A"
  shows "(\<lambda>i j. swapped k pv A ! i ! j) = (\<lambda>i j. A ! i ! j)(k := (\<lambda>j. A ! pv ! j), pv := (\<lambda>j. A ! k ! j))"
  using assms by (auto simp: fun_eq_iff swapped_def nth_list_update)

lemma determinant_swapped:
  assumes "k < n" "pv < n" "length A = n"
  shows "determinant n (\<lambda>i j. swapped k pv A ! i ! j)
    = (if k = pv then 1 else - 1) * determinant n (\<lambda>i j. A ! i ! j)"
proof (cases "k = pv")
  case True
  then show ?thesis by simp
next
  case False
  let ?M = "\<lambda>i j. A ! i ! j"
  have "determinant n (?M(k := ?M pv, pv := ?M k)) = - determinant n ?M"
    by (rule determinant_swap [OF False assms(1,2)])
  with False show ?thesis
    using fm_swapped [of k A pv] assms by simp
qed

lemma echelon_swapped:
  assumes "echelon k n (\<lambda>i j. A ! i ! j)" "k \<le> pv" "pv < n" "length A = n"
  shows "echelon k n (\<lambda>i j. swapped k pv A ! i ! j)"
  using assms unfolding echelon_def swapped_def
  by (auto simp: nth_list_update)

lemma elim_from_entry:
  assumes "square n A" "r < n" "c < n"
  shows "elim_from k (Suc k) A ! r ! c
    = (if r \<le> k \<or> c < k then A ! r ! c
       else (A ! r ! c - elim_factor A k r * A ! k ! c) mod p)"
  using assms
  by (auto simp: elim_from_nth elim_row_nth square_length square_row)

lemma determinant_elim_from:
  assumes sq: "square n A" and k: "k < n" and ech: "echelon k n (\<lambda>i j. A ! i ! j)"
  shows "determinant n (\<lambda>i j. elim_from k (Suc k) A ! i ! j) mod p
    = determinant n (\<lambda>i j. A ! i ! j) mod p"
proof -
  let ?M = "\<lambda>i j. A ! i ! j"
  let ?g = "\<lambda>r. - elim_factor A k r"
  let ?B = "\<lambda>r. if k < r \<and> r < n then (\<lambda>c. ?M r c + ?g r * ?M k c) else ?M r"
  have B: "determinant n ?B = determinant n ?M"
    by (rule determinant_add_multiples [OF k]) simp
  have "determinant n (\<lambda>i j. elim_from k (Suc k) A ! i ! j) mod p = determinant n ?B mod p"
  proof (rule determinant_mod_cong)
    fix i j assume ij: "i < n" "j < n"
    show "elim_from k (Suc k) A ! i ! j mod p = ?B i j mod p"
    proof (cases "k < i \<and> j < k")
      case True
      with ech k have "A ! k ! j = 0" by (simp add: echelon_def)
      with True ij show ?thesis by (simp add: elim_from_entry [OF sq])
    next
      case False
      with ij show ?thesis by (auto simp: elim_from_entry [OF sq])
    qed
  qed
  with B show ?thesis by simp
qed

lemma echelon_elim_from:
  assumes sq: "square n A" and fm: "field_matrix A" and k: "k < n"
    and ech: "echelon k n (\<lambda>i j. A ! i ! j)" and nz: "A ! k ! k \<noteq> 0"
  shows "echelon (Suc k) n (\<lambda>i j. elim_from k (Suc k) A ! i ! j)"
  unfolding echelon_def
proof (intro allI impI)
  fix i j assume i: "i < n" and j: "j < Suc k" and ji: "j < i"
  from j ji i have jn: "j < n" by simp
  show "elim_from k (Suc k) A ! i ! j = 0"
  proof (cases "i \<le> k \<or> j < k")
    case True
    then have "j < k" using ji by auto
    with ech i ji have "A ! i ! j = 0" by (simp add: echelon_def)
    with True show ?thesis by (simp add: elim_from_entry [OF sq i jn])
  next
    case False
    with j have jk: "j = k" and ik: "k < i" by simp_all
    let ?akk = "A ! k ! k" and ?aik = "A ! i ! k"
    have fkk: "in_field ?akk" by (rule field_entry [OF sq fm k k])
    have "(elim_factor A k i * ?akk) mod p = (?aik * modInverse ?akk * ?akk) mod p"
      unfolding elim_factor_def by (rule mod_mult_left_eq)
    also have "\<dots> = (?aik * (?akk * modInverse ?akk)) mod p"
      by (simp add: mult_ac)
    also have "\<dots> = (?aik * ((?akk * modInverse ?akk) mod p)) mod p"
      by (simp add: mod_mult_right_eq)
    also have "\<dots> = ?aik mod p"
      by (simp add: field_inverse [OF fkk nz])
    finally have "(?aik - elim_factor A k i * ?akk) mod p = 0"
      by (metis cancel_comm_monoid_add_class.diff_cancel mod_0 mod_diff_right_eq)
    with ik have "elim_from k (Suc k) A ! i ! k = 0"
      by (simp add: elim_from_entry [OF sq i k])
    with jk show ?thesis by simp
  qed
qed

lemma swapped_pivot:
  "k < length A \<Longrightarrow> pv < length A \<Longrightarrow> swapped k pv A ! k = A ! pv"
  by (cases "k = pv") (simp_all add: swapped_def)

lemma elim_loop_determinant:
  "square n A \<Longrightarrow> field_matrix A \<Longrightarrow> in_field det \<Longrightarrow> echelon k n (\<lambda>i j. A ! i ! j) \<Longrightarrow>
   k \<le> n \<Longrightarrow>
   \<exists>A' tr'. elim_loop n k (A, det, tr)
     = Some ((det * determinant n (\<lambda>i j. A ! i ! j)) mod p, A', tr')"
proof (induction "n - k" arbitrary: k A det tr)
  case 0
  then have nk: "\<not> k < n" and kn: "k = n" by simp_all
  let ?d = "(det * (\<Prod>r = 0..<n. A ! r ! r)) mod p"
  from diag_loop_spec [OF 0(2,3,4), of 0 tr]
  obtain st where "diag_loop n 0 A (det, tr) = Some (?d, st @ tr)" by auto
  then have "elim_loop n k (A, det, tr) = Some (?d, A, st @ tr)"
    by (simp add: elim_loop_done [OF nk] ll_final_field)
  moreover have "determinant n (\<lambda>i j. A ! i ! j) = (\<Prod>i<n. A ! i ! i)"
    using 0(5) kn by (intro determinant_triangular) simp
  ultimately show ?case by (simp add: lessThan_atLeast0)
next
  case (Suc m)
  then have lt: "k < n" by simp
  let ?M = "\<lambda>i j. A ! i ! j"
  note n = square_length [OF Suc(3)]
  from find_pivot_spec [OF Suc(3) lt less_imp_le [OF lt]] obtain pv
    where pv: "find_pivot A n k k = Some pv" "k \<le> pv" "pv \<le> n"
      "\<forall>r. k \<le> r \<and> r < pv \<longrightarrow> A ! r ! k = 0" "pv < n \<longrightarrow> A ! pv ! k \<noteq> 0"
    by auto
  show ?case
  proof (cases "pv = n")
    case True
    have "determinant n ?M = 0"
      by (rule determinant_echelon_zero [OF Suc(6) lt]) (use pv(4) True in simp)
    moreover have "elim_loop n k (A, det, tr) = Some (0, A, tr)"
      using pv(1) True by (simp add: elim_loop_unfold [OF lt])
    ultimately show ?thesis by simp
  next
    case False
    with pv(3) have pvn: "pv < n" by simp
    let ?A1 = "swapped k pv A"
    let ?det1 = "if k \<noteq> pv then (- det) mod p else det"
    let ?A2 = "elim_from k (Suc k) ?A1"
    from swap_rows_spec [OF Suc(5), of k pv A tr]
    obtain st1 where sw: "swap_rows k pv (A, det, tr) = (?A1, ?det1, st1 @ tr)" by auto
    have sq1: "square n ?A1" by (rule swapped_square [OF Suc(3) lt pvn])
    have fm1: "field_matrix ?A1" by (rule swapped_field [OF Suc(3,4) lt pvn])
    have d1: "in_field ?det1" using Suc(5) by simp
    have ech1: "echelon k n (\<lambda>i j. ?A1 ! i ! j)"
      by (rule echelon_swapped [OF Suc(6) pv(2) pvn n])
    have nz1: "?A1 ! k ! k \<noteq> 0"
      using pv(5) pvn lt n by (simp add: swapped_pivot)
    from elim_rows_spec [OF lt sq1 fm1, of "Suc k" "st1 @ tr"]
    obtain st2 where rows: "elim_rows n k (Suc k) (?A1, st1 @ tr) = Some (?A2, st2 @ st1 @ tr)"
      by auto
    from Suc(2) have m: "m = n - Suc k" by simp
    from lt have le: "Suc k \<le> n" by simp
    have "\<exists>A' tr'. elim_loop n (Suc k) (?A2, ?det1, st2 @ st1 @ tr)
        = Some ((?det1 * determinant n (\<lambda>i j. ?A2 ! i ! j)) mod p, A', tr')"
      by (rule Suc(1) [OF m elim_from_square [OF sq1] elim_from_field [OF fm1] d1
            echelon_elim_from [OF sq1 fm1 lt ech1 nz1] le])
    then obtain A' tr' where rec: "elim_loop n (Suc k) (?A2, ?det1, st2 @ st1 @ tr)
        = Some ((?det1 * determinant n (\<lambda>i j. ?A2 ! i ! j)) mod p, A', tr')"
      by auto
    have D2: "determinant n (\<lambda>i j. ?A2 ! i ! j) mod p = determinant n (\<lambda>i j. ?A1 ! i ! j) mod p"
      by (rule determinant_elim_from [OF sq1 lt ech1])
    have D1: "determinant n (\<lambda>i j. ?A1 ! i ! j) = (if k = pv then 1 else - 1) * determinant n ?M"
      by (rule determinant_swapped [OF lt pvn n])
    have "(?det1 * determinant n (\<lambda>i j. ?A2 ! i ! j)) mod p
        = (?det1 * (determinant n (\<lambda>i j. ?A2 ! i ! j) mod p)) mod p"
      by (simp add: mod_mult_right_eq)
    also have "\<dots> = (?det1 * determinant n (\<lambda>i j. ?A1 ! i ! j)) mod p"
      by (simp only: D2 mod_mult_right_eq)
    also have "\<dots> = (det * determinant n ?M) mod p"
    proof (cases "k = pv")
      case True
      then show ?thesis by (simp add: D1)
    next
      case False
      have "((- det) mod p * (- determinant n ?M)) mod p = ((- det) * (- determinant n ?M)) mod p"
        by (rule mod_mult_left_eq)
      with False show ?thesis by (simp add: D1)
    qed
    finally have "elim_loop n (Suc k) (?A2, ?det1, st2 @ st1 @ tr)
        = Some ((det * determinant n ?M) mod p, A', tr')"
      using rec by simp
    then have "elim_loop n k (A, det, tr) = Some ((det * determinant n ?M) mod p, A', tr')"
      using pv(1) False sw rows by (simp add: elim_loop_unfold [OF lt])
    then show ?thesis by blast
  qed
qed

lemma modularDeterminant_det_of:
  assumes "square n A" "field_matrix A"
  shows "modularDeterminant A = Some (det_of A mod p)"
proof -
  have one: "in_field 1" by (simp add: in_field_def p_def)
  have ech: "echelon 0 n (\<lambda>i j. A ! i ! j)" by (simp add: echelon_def)
  from elim_loop_determinant [OF assms one ech, where tr = "[]"] square_length [OF assms(1)]
  show ?thesis
    by (auto simp: modularDeterminant_def modularDeterminant_run_def det_of_def)
qed

lemma determinant_zero_row:
  assumes "i < n" "\<And>j. j < n \<Longrightarrow> A i j = 0"
  shows "determinant n A = 0"
proof -
  have "determinant n A = determinant n (A(i := (\<lambda>c. 0 * A i c + 0 * A i c)))"
    by (rule determinant_cong) (simp add: assms(2))
  also have "\<dots> = 0 * determinant n (A(i := A i)) + 0 * determinant n (A(i := A i))"
    by (rule determinant_linear [OF assms(1)])
  finally show ?thesis by simp
qed

text \<open>
  Claim C3. For every \<open>n\<close> by \<open>n\<close> matrix \<open>A\<close> with entries in \<open>[0, p - 1]\<close>,
  \<^verbatim>\<open>modularDeterminant\<close> returns the integer determinant of \<open>A\<close> reduced modulo \<open>p\<close>. In
  particular a matrix with a zero row gives \<open>0\<close>; and a row exchange replaces \<open>det\<close> by
  \<open>(p - det) mod p\<close>. The identity matrix gives \<open>1\<close>, as the instance after the theorem shows.
\<close>

theorem modularDeterminant_correct:
  assumes "square n A" "field_matrix A"
  shows "modularDeterminant A = Some (det_of A mod p)
    \<and> ((\<exists>i<n. \<forall>j<n. A ! i ! j = 0) \<longrightarrow> modularDeterminant A = Some 0)
    \<and> (\<forall>k pv d tr. k \<noteq> pv \<and> in_field d \<longrightarrow>
          swap_rows k pv (A, d, tr)
            = (swapped k pv A, (p - d) mod p, Det ((p - d) mod p) # tr))"
proof (intro conjI allI impI)
  show main: "modularDeterminant A = Some (det_of A mod p)"
    by (rule modularDeterminant_det_of [OF assms])
  show "modularDeterminant A = Some 0" if "\<exists>i<n. \<forall>j<n. A ! i ! j = 0"
  proof -
    from that obtain i where "i < n" "\<forall>j<n. A ! i ! j = 0" by auto
    then have "determinant n (\<lambda>i j. A ! i ! j) = 0"
      by (intro determinant_zero_row [of i]) simp_all
    with main square_length [OF assms(1)] show ?thesis by (simp add: det_of_def)
  qed
  show "swap_rows k pv (A, d, tr) = (swapped k pv A, (p - d) mod p, Det ((p - d) mod p) # tr)"
    if "k \<noteq> pv \<and> in_field d" for k pv d tr
  proof -
    from that have "ll_sub p d smod p = (p - d) mod p"
      by (simp add: ll_neg_field)
    with that show ?thesis by (simp add: swap_rows_def swapped_def Let_def)
  qed
qed

theorem modularDeterminant_correct_witness:
  "modularDeterminant [[1, 0, 0], [0, 1, 0], [0, 0, 1]] = Some 1
   \<and> modularDeterminant [[0, 2], [3, 4]] = Some 1000000001
   \<and> modularDeterminant [[5, 6], [0, 0]] = Some 0
   \<and> swap_rows 0 1 ([[0, 2], [3, 4]], 1, []) = ([[3, 4], [0, 2]], 1000000006, [Det 1000000006])"
proof -
  have f: "field_matrix [[1, 0, 0], [0, 1, 0], [0, 0, 1]]" "field_matrix [[0, 2], [3, 4]]"
    "field_matrix [[5, 6], [0, 0]]" "in_field 1"
    by (simp_all add: field_matrix_def in_field_def p_def)
  have s: "square 3 [[1, 0, 0], [0, 1, 0], [0, 0, 1 :: int]]" "square 2 [[0, 2], [3, 4 :: int]]"
    "square 2 [[5, 6], [0, 0 :: int]]"
    by (simp_all add: square_def)
  have d: "det_of [[1, 0, 0], [0, 1, 0], [0, 0, 1]] mod p = 1" "det_of [[0, 2], [3, 4]] mod p = 1000000001"
    by code_simp+
  have z: "\<exists>i<2. \<forall>j<2. [[5, 6], [0, 0 :: int]] ! i ! j = 0"
    by (intro exI [of _ 1]) (simp add: less_Suc_eq numeral_2_eq_2)
  note c1 = modularDeterminant_correct [OF s(1) f(1)]
  note c2 = modularDeterminant_correct [OF s(2) f(2)]
  note c3 = modularDeterminant_correct [OF s(3) f(3)]
  from c1 d(1) have "modularDeterminant [[1, 0, 0], [0, 1, 0], [0, 0, 1]] = Some 1"
    by simp
  moreover from c2 d(2) have "modularDeterminant [[0, 2], [3, 4]] = Some 1000000001"
    by simp
  moreover from c3 z have "modularDeterminant [[5, 6], [0, 0]] = Some 0"
    by blast
  moreover from c2 f(4)
  have "swap_rows 0 1 ([[0, 2], [3, 4]], 1, []) = (swapped 0 1 [[0, 2], [3, 4]], (p - 1) mod p, [Det ((p - 1) mod p)])"
    by simp
  then have "swap_rows 0 1 ([[0, 2], [3, 4]], 1, []) = ([[3, 4], [0, 2]], 1000000006, [Det 1000000006])"
    by (simp add: swapped_def p_def)
  ultimately show ?thesis by simp
qed

section \<open>hasPerfectMatching has no false positive\<close>

lemma edmonds_inv_write:
  assumes "edmonds_inv n graph A'" "i < n" "j < n" "in_field v" "v \<noteq> 0 \<longrightarrow> graph ! i ! j = 1"
  shows "edmonds_inv n graph (wr2 A' i j v)"
proof -
  from assms(1) have sq: "square n A'" by (simp add: edmonds_inv_def)
  show ?thesis
    using assms unfolding edmonds_inv_def
    by (auto simp: wr2_square wr2_field wr2_nth [OF sq assms(2,3)])
qed

lemma edmonds_cols_unfold:
  "j < n \<Longrightarrow> rd2 graph i j = Some g \<Longrightarrow>
   edmonds_cols graph gen n i j (A', used)
     = (if g = 1 then edmonds_cols graph gen n i (Suc j) (wr2 A' i j (gen used), Suc used)
        else edmonds_cols graph gen n i (Suc j) (wr2 A' i j 0, used))"
  by (subst edmonds_cols.simps) simp

lemma edmonds_cols_done: "\<not> j < n \<Longrightarrow> edmonds_cols graph gen n i j s = Some s"
  by (cases s, hypsubst, subst edmonds_cols.simps, simp)

lemma edmonds_cols_spec:
  assumes "square n graph" "\<forall>k. in_field (gen k)" "i < n"
  shows "edmonds_inv n graph A' \<Longrightarrow>
    \<exists>A'' used'. edmonds_cols graph gen n i j (A', used) = Some (A'', used')
      \<and> edmonds_inv n graph A''"
proof (induction "n - j" arbitrary: j A' used)
  case 0
  then show ?case by (simp add: edmonds_cols_done)
next
  case (Suc m)
  then have lt: "j < n" by simp
  from Suc(2) have m: "m = n - Suc j" by simp
  note rd = square_rd2 [OF assms(1,3) lt]
  have zero: "in_field 0" by (simp add: in_field_def p_def)
  show ?case
  proof (cases "graph ! i ! j = 1")
    case True
    have "edmonds_inv n graph (wr2 A' i j (gen used))"
      by (rule edmonds_inv_write [OF Suc(3) assms(3) lt assms(2) [rule_format]]) (simp add: True)
    from Suc(1) [OF m this, where used = "Suc used"] True show ?thesis
      by (simp add: edmonds_cols_unfold [OF lt rd])
  next
    case False
    have "edmonds_inv n graph (wr2 A' i j 0)"
      by (rule edmonds_inv_write [OF Suc(3) assms(3) lt zero]) simp
    from Suc(1) [OF m this, where used = used] False show ?thesis
      by (simp add: edmonds_cols_unfold [OF lt rd])
  qed
qed

lemma edmonds_rows_spec:
  assumes "square n graph" "\<forall>k. in_field (gen k)"
  shows "edmonds_inv n graph A' \<Longrightarrow>
    \<exists>A'' used'. edmonds_rows graph gen n i (A', used) = Some (A'', used')
      \<and> edmonds_inv n graph A''"
proof (induction "n - i" arbitrary: i A' used)
  case 0
  then show ?case by (subst edmonds_rows.simps) simp
next
  case (Suc m)
  then have lt: "i < n" by simp
  from Suc(2) have m: "m = n - Suc i" by simp
  from edmonds_cols_spec [OF assms lt Suc(3), where j = 0 and used = used]
  obtain A1 used1 where cols: "edmonds_cols graph gen n i 0 (A', used) = Some (A1, used1)"
    and inv1: "edmonds_inv n graph A1" by auto
  from Suc(1) [OF m inv1, where used = used1]
  obtain A'' used' where "edmonds_rows graph gen n (Suc i) (A1, used1) = Some (A'', used')"
    and "edmonds_inv n graph A''" by auto
  then show ?case
    using lt cols by (subst edmonds_rows.simps) simp
qed

lemma edmonds_inv_init: "edmonds_inv n graph (replicate n (replicate n 0))"
  by (simp add: edmonds_inv_def square_def field_matrix_def list_all_length in_field_def p_def)

lemma edmonds_determinant_matching:
  assumes "square n graph" "edmonds_inv n graph A'" "det_of A' \<noteq> 0"
  shows "has_perfect_matching graph"
proof -
  from assms(2) have sq: "square n A'"
    and edge: "\<And>i j. i < n \<Longrightarrow> j < n \<Longrightarrow> A' ! i ! j \<noteq> 0 \<Longrightarrow> graph ! i ! j = 1"
    by (simp_all add: edmonds_inv_def)
  from assms(3) have "determinant n (\<lambda>i j. A' ! i ! j) \<noteq> 0"
    by (simp add: det_of_def square_length [OF sq])
  from determinant_nonzero_rows [OF this] obtain f
    where f: "bij_betw f {..<n} {..<n}" and nz: "\<And>i. i < n \<Longrightarrow> A' ! i ! f i \<noteq> 0"
    by auto
  have "graph ! i ! f i = 1" if "i < n" for i
  proof -
    from f that have "f i < n" by (auto simp: bij_betw_def)
    from edge [OF that this nz [OF that]] show ?thesis .
  qed
  with f show ?thesis
    by (auto simp: has_perfect_matching_def square_length [OF assms(1)])
qed

text \<open>
  Claim C2. For every \<open>n\<close> by \<open>n\<close> adjacency matrix of a bipartite graph without a perfect
  matching and every sequence of values in \<open>[1, p - 1]\<close> that the generator may deliver,
  \<^verbatim>\<open>hasPerfectMatching\<close> returns false: the determinant of the matrix \<open>A'\<close> it builds is \<open>0\<close>.
\<close>

theorem hasPerfectMatching_no_false_positive:
  assumes "square n graph" "\<forall>k. 1 \<le> gen k \<and> gen k \<le> p - 1"
    and "\<not> has_perfect_matching graph"
  shows "hasPerfectMatching graph gen = Some False
    \<and> (\<exists>A' used. edmonds_rows graph gen n 0 (replicate n (replicate n 0), 0) = Some (A', used)
          \<and> det_of A' = 0 \<and> modularDeterminant A' = Some 0)"
proof -
  note len = square_length [OF assms(1)]
  have n0: "n \<noteq> 0"
  proof
    assume "n = 0"
    with len have "graph = []" by simp
    moreover have "bij_betw id {..<0::nat} {..<0}" by simp
    ultimately have "has_perfect_matching graph"
      unfolding has_perfect_matching_def by (intro exI [of _ id]) simp
    with assms(3) show False by simp
  qed
  have gen: "\<forall>k. in_field (gen k)"
  proof
    fix k
    from assms(2) have "1 \<le> gen k" "gen k \<le> p - 1" by simp_all
    then show "in_field (gen k)" by (simp add: in_field_def)
  qed
  from edmonds_rows_spec [OF assms(1) gen edmonds_inv_init, where i = 0 and used = 0]
  obtain A' used where rows: "edmonds_rows graph gen n 0 (replicate n (replicate n 0), 0) = Some (A', used)"
    and inv: "edmonds_inv n graph A'" by auto
  from edmonds_determinant_matching [OF assms(1) inv] assms(3)
  have det0: "det_of A' = 0" by auto
  from inv have "square n A'" "field_matrix A'" by (simp_all add: edmonds_inv_def)
  from modularDeterminant_det_of [OF this] det0
  have md: "modularDeterminant A' = Some 0" by simp
  have "hasPerfectMatching graph gen = Some False"
    using n0 len rows md by (simp add: hasPerfectMatching_def)
  with rows det0 md show ?thesis by blast
qed

lemma graph2_no_matching: "\<not> has_perfect_matching [[0, 1, 0], [0, 1, 0], [1, 0, 1]]"
proof
  let ?g = "[[0, 1, 0], [0, 1, 0], [1, 0, 1 :: int32]]"
  assume "has_perfect_matching ?g"
  then obtain f where f: "bij_betw f {..<length ?g} {..<length ?g}"
    and e: "\<forall>i<length ?g. ?g ! i ! f i = 1"
    unfolding has_perfect_matching_def by blast
  have len: "length ?g = 3" by simp
  have lt: "f i < 3" if "i < 3" for i
    using f that unfolding len bij_betw_def by auto
  have e0: "?g ! 0 ! f 0 = 1" using e [rule_format, of 0] by simp
  have e1: "?g ! 1 ! f 1 = 1" using e [rule_format, of 1] by simp
  have "f 0 = 1"
    using e0 lt [of 0] by (auto simp: less_Suc_eq numeral_3_eq_3)
  moreover have "f 1 = 1"
    using e1 lt [of 1] by (auto simp: less_Suc_eq numeral_3_eq_3)
  moreover from f have "inj_on f {..<3}" unfolding len by (simp add: bij_betw_def)
  then have "f 0 = f 1 \<Longrightarrow> (0::nat) = 1" by (rule inj_onD) simp_all
  ultimately show False by simp
qed

theorem hasPerfectMatching_no_false_positive_witness:
  "hasPerfectMatching [[0, 1, 0], [0, 1, 0], [1, 0, 1]] (\<lambda>k. 5) = Some False
    \<and> (\<exists>A' used. edmonds_rows [[0, 1, 0], [0, 1, 0], [1, 0, 1]] (\<lambda>k. 5) 3 0
            (replicate 3 (replicate 3 0), 0) = Some (A', used)
          \<and> det_of A' = 0 \<and> modularDeterminant A' = Some 0)"
  by (rule hasPerfectMatching_no_false_positive [OF _ _ graph2_no_matching])
     (simp_all add: square_def p_def)

end
